theory Spec2Isabelle
  imports Complex_Main
begin

section \<open>The calculation network of performance.py\<close>

text \<open>
  Python objects are referred to by their address, a natural number.  The wiring of a
  network (the \<open>dependents\<close> and \<open>precedents\<close> lists of every \<open>Calculable\<close>) is built once by
  the \<open>connect_...\<close> and \<open>add_...\<close> methods and is only read by \<open>make_dirty\<close> and \<open>update\<close>,
  so it is kept in a record of its own.  What those two methods change is the state: the
  \<open>dirty\<close> flag of every object, the \<open>attributes\<close> dictionary of every \<open>Component\<close>, and the
  numeric fields that the \<open>calculate\<close> methods read and write (type \<open>'p\<close>).  The field
  \<open>computed\<close> is a trace: \<open>update\<close> appends the address of an object each time it invokes that
  object's \<open>calculate\<close>.
\<close>

datatype error =
    AssertionError | LookupError | KeyError | AttributeError | ZeroDivisionError
  | IndexError | NotImplementedError | IterationLimit | LinAlgError | ValueError

datatype 'a outcome = Returned 'a | Raised error 'a

fun outcome_state :: "'a outcome \<Rightarrow> 'a" where
  "outcome_state (Returned s) = s"
| "outcome_state (Raised e s) = s"

fun outcome_error :: "'a outcome \<Rightarrow> error option" where
  "outcome_error (Returned s) = None"
| "outcome_error (Raised e s) = Some e"

record graph =
  dependents :: "nat \<Rightarrow> nat list"
  precedents :: "nat \<Rightarrow> nat list"

record 'p state =
  dirty :: "nat \<Rightarrow> bool"
  attributes :: "nat \<Rightarrow> (string \<rightharpoonup> real)"
  payload :: 'p
  computed :: "nat list"

text \<open>
  A \<open>for\<close> loop over a list of objects whose body may raise: the first exception leaves the
  loop, and \<open>None\<close> (the recursion of the body did not come back) does too.
\<close>

primrec for_each ::
  "('s \<Rightarrow> nat \<Rightarrow> 's outcome option) \<Rightarrow> nat list \<Rightarrow> 's \<Rightarrow> 's outcome option" where
  "for_each f [] s = Some (Returned s)"
| "for_each f (d # ds) s =
     (case f s d of
        Some (Returned s') \<Rightarrow> for_each f ds s'
      | r \<Rightarrow> r)"

primrec for_each_mark :: "('s \<Rightarrow> nat \<Rightarrow> 's option) \<Rightarrow> nat list \<Rightarrow> 's \<Rightarrow> 's option" where
  "for_each_mark f [] s = Some s"
| "for_each_mark f (d # ds) s =
     (case f s d of None \<Rightarrow> None | Some s' \<Rightarrow> for_each_mark f ds s')"

text \<open>
  \<open>Calculable.make_dirty\<close>: set the flag, then recurse into every dependent, whatever its
  flag is.  The recursion follows the object graph and does not return on a cycle; the
  first argument bounds its depth and \<open>None\<close> is "did not return".
\<close>

primrec make_dirty :: "nat \<Rightarrow> graph \<Rightarrow> 'p state \<Rightarrow> nat \<Rightarrow> 'p state option" where
  "make_dirty 0 g s n = None"
| "make_dirty (Suc k) g s n =
     for_each_mark (make_dirty k g) (dependents g n) (s\<lparr>dirty := (dirty s)(n := True)\<rparr>)"

text \<open>
  \<open>Calculable.update\<close>.  The \<open>calculate\<close> method of the object at address \<open>n\<close> is the
  parameter \<open>calc n\<close>: it reads the object's attributes, reads and writes numeric fields,
  and may raise.
\<close>

primrec update ::
  "nat \<Rightarrow> graph \<Rightarrow> (nat \<Rightarrow> (string \<rightharpoonup> real) \<Rightarrow> 'p \<Rightarrow> 'p outcome) \<Rightarrow> 'p state \<Rightarrow> nat
     \<Rightarrow> 'p state outcome option" where
  "update 0 g calc s n = None"
| "update (Suc k) g calc s n =
     (if \<not> dirty s n then Some (Raised AssertionError s)
      else if \<not> list_ex (dirty s) (precedents g n) then
        (let s1 = s\<lparr>dirty := (dirty s)(n := False), computed := computed s @ [n]\<rparr>
         in case calc n (attributes s1 n) (payload s1) of
              Raised e x \<Rightarrow> Some (Raised e (s1\<lparr>payload := x\<rparr>))
            | Returned x \<Rightarrow> for_each (update k g calc) (dependents g n) (s1\<lparr>payload := x\<rparr>))
      else Some (Returned s))"

text \<open>
  \<open>Component.__setitem__\<close>: an unknown parameter name is rejected before anything is
  touched; otherwise the component is made dirty and the value is stored.
\<close>

definition setitem ::
  "nat \<Rightarrow> graph \<Rightarrow> 'p state \<Rightarrow> nat \<Rightarrow> string \<Rightarrow> real \<Rightarrow> 'p state outcome option" where
  "setitem k g s n name v =
     (if attributes s n name = None then Some (Raised LookupError s)
      else case make_dirty k g s n of
             None \<Rightarrow> None
           | Some s' \<Rightarrow>
               Some (Returned (s'\<lparr>attributes := (attributes s')(n := (attributes s' n)(name \<mapsto> v))\<rparr>)))"

text \<open>
  The dependency relation of a network: \<open>(n, d)\<close> when \<open>d\<close> is in the \<open>dependents\<close> list of
  \<open>n\<close>.  The transitive dependents of \<open>n\<close> are the \<open>m\<close> with \<open>(n, m)\<close> in its transitive
  closure; \<open>depth g n\<close> counts them.
\<close>

definition deps_rel :: "graph \<Rightarrow> (nat \<times> nat) set" where
  "deps_rel g = {(n, d). d \<in> set (dependents g n)}"

definition depth :: "graph \<Rightarrow> nat \<Rightarrow> nat" where
  "depth g n = card {m. (n, m) \<in> (deps_rel g)\<^sup>+}"

text \<open>
  What a run of \<open>update\<close> started at the objects \<open>N\<close> may do to a state: flags are only
  cleared, the trace grows by one entry for every flag that was cleared, the cleared flags
  belong to objects reachable from \<open>N\<close>, and the attributes are untouched.
\<close>

definition progress :: "graph \<Rightarrow> nat set \<Rightarrow> 'p state \<Rightarrow> 'p state \<Rightarrow> bool" where
  "progress g N s s' =
     ((\<forall>m. dirty s' m \<longrightarrow> dirty s m) \<and>
      (\<forall>m. count_list (computed s') m
             = count_list (computed s) m + (if dirty s m \<and> \<not> dirty s' m then 1 else 0)) \<and>
      (\<forall>m. dirty s m \<and> \<not> dirty s' m \<longrightarrow> (\<exists>n \<in> N. (n, m) \<in> (deps_rel g)\<^sup>*)) \<and>
      attributes s' = attributes s)"

text \<open>
  The invariant of the propagation inside the set \<open>D\<close> of objects: every dependent of a
  clean object is clean itself or blocked by a dirty precedent, except for the objects in
  \<open>Y\<close>, on which \<open>update\<close> is still to be called.
\<close>

definition settled :: "graph \<Rightarrow> nat set \<Rightarrow> 'p state \<Rightarrow> nat set \<Rightarrow> bool" where
  "settled g D s Y =
     (\<forall>m d. m \<in> D \<and> d \<in> set (dependents g m) \<and> \<not> dirty s m \<and> d \<notin> Y
        \<longrightarrow> \<not> dirty s d \<or> list_ex (dirty s) (precedents g d))"

section \<open>Component physics\<close>

text \<open>
  A \<open>Station\<close> holds total pressure, total temperature and mass flow.  The stations live in
  a store indexed by address, so that two references to one station are one station.  The
  numbers are Python floats; they are modelled as reals.
\<close>

record station =
  stn_p :: real
  stn_t :: real
  stn_w :: real

record splitter =
  spl_inlet :: nat
  exit0 :: nat
  exit1 :: nat

record flow_component =
  inlet :: nat
  exit :: nat

text \<open>
  \<open>Splitter.calculate\<close>.  The inlet is read first; \<open>self['BPR']\<close> raises \<open>KeyError\<close> when
  the parameter is missing; the six fields are written one after the other, and the first
  division raises when \<open>bpr + 1\<close> is zero, after two fields have been written.
\<close>

definition Splitter_calculate ::
  "splitter \<Rightarrow> (string \<rightharpoonup> real) \<Rightarrow> (nat \<Rightarrow> station) \<Rightarrow> (nat \<Rightarrow> station) outcome" where
  "Splitter_calculate c attrs st =
     (let p0 = stn_p (st (spl_inlet c)); t0 = stn_t (st (spl_inlet c));
          w0 = stn_w (st (spl_inlet c))
      in case attrs ''BPR'' of
           None \<Rightarrow> Raised KeyError st
         | Some bpr \<Rightarrow>
             (let st1 = st(exit0 c := (st (exit0 c))\<lparr>stn_p := p0\<rparr>);
                  st2 = st1(exit0 c := (st1 (exit0 c))\<lparr>stn_t := t0\<rparr>)
              in if bpr + 1 = 0 then Raised ZeroDivisionError st2
                 else
                   (let st3 = st2(exit0 c := (st2 (exit0 c))\<lparr>stn_w := w0 / (bpr + 1)\<rparr>);
                        st4 = st3(exit1 c := (st3 (exit1 c))\<lparr>stn_p := p0\<rparr>);
                        st5 = st4(exit1 c := (st4 (exit1 c))\<lparr>stn_t := t0\<rparr>);
                        st6 = st5(exit1 c := (st5 (exit1 c))\<lparr>stn_w := w0 * bpr / (bpr + 1)\<rparr>)
                    in Returned st6)))"

text \<open>
  \<open>Combustor.calculate\<close>.  The \<open>try\<close> block reads \<open>deltaT\<close>; the \<open>except\<close> branch runs when
  that lookup raises and reads \<open>TEX\<close> instead, whose absence is a \<open>KeyError\<close> that leaves the
  method.  The exit station is written last.
\<close>

definition Combustor_calculate ::
  "flow_component \<Rightarrow> (string \<rightharpoonup> real) \<Rightarrow> (nat \<Rightarrow> station) \<Rightarrow> (nat \<Rightarrow> station) outcome" where
  "Combustor_calculate c attrs st =
     (let p0 = stn_p (st (inlet c)); t0 = stn_t (st (inlet c)); w0 = stn_w (st (inlet c))
      in case (case attrs ''deltaT'' of
                 Some dt \<Rightarrow> Some (p0, t0 + dt, w0)
               | None \<Rightarrow> (case attrs ''TEX'' of
                            Some t1 \<Rightarrow> Some (p0, t1, w0)
                          | None \<Rightarrow> None)) of
           None \<Rightarrow> Raised KeyError st
         | Some (p1, t1, w1) \<Rightarrow>
             Returned (st(exit c := (st (exit c))\<lparr>stn_p := p1, stn_t := t1, stn_w := w1\<rparr>)))"

section \<open>The solver of solver.py\<close>

text \<open>
  A Python dictionary from names to floats is an association list with distinct keys, in
  the order in which the dictionary is iterated; \<open>d[k]\<close> raises \<open>KeyError\<close> for a missing
  key.
\<close>

type_synonym dict = "(string \<times> real) list"

definition getitem :: "dict \<Rightarrow> string \<Rightarrow> error + real" where
  "getitem d k = (case map_of d k of None \<Rightarrow> Inl KeyError | Some v \<Rightarrow> Inr v)"

text \<open>
  The object that the solver wraps.  The solver reads its attribute \<open>input_aliases\<close> (absent
  on an object that does not define it), calls \<open>set_input_alias\<close> and calls \<open>calculate\<close>;
  the object has a state of its own, of type \<open>'e\<close>.
\<close>

record 'e evaluable =
  input_aliases :: "'e \<Rightarrow> string list option"
  set_input_alias :: "string \<Rightarrow> real \<Rightarrow> 'e \<Rightarrow> error + 'e"
  calculate :: "dict \<Rightarrow> 'e \<Rightarrow> error + dict \<times> 'e"

record setting =
  perturbation :: real
  sval :: real

text \<open>
  While the solver runs, the state is the state of the wrapped object together with the
  number of times its \<open>calculate\<close> has been invoked.
\<close>

record 'e machine =
  engine :: 'e
  evaluations :: nat

definition engine_calculate ::
  "'e evaluable \<Rightarrow> dict \<Rightarrow> 'e machine \<Rightarrow> error + dict \<times> 'e machine" where
  "engine_calculate E vals m =
     (case calculate E vals (engine m) of
        Inl x \<Rightarrow> Inl x
      | Inr (res, e') \<Rightarrow> Inr (res, \<lparr>engine = e', evaluations = Suc (evaluations m)\<rparr>))"

text \<open>The first loop of \<open>solve\<close>: targets that are input aliases are applied, the others kept.\<close>

fun partition_targets ::
  "'e evaluable \<Rightarrow> dict \<Rightarrow> 'e \<Rightarrow> dict \<Rightarrow> error + 'e \<times> dict" where
  "partition_targets E [] e solver_targets = Inr (e, solver_targets)"
| "partition_targets E ((t, v) # ts) e solver_targets =
     (case input_aliases E e of
        None \<Rightarrow> Inl AttributeError
      | Some aliases \<Rightarrow>
          if t \<in> set aliases then
            (case set_input_alias E t v e of
               Inl x \<Rightarrow> Inl x
             | Inr e' \<Rightarrow> partition_targets E ts e' solver_targets)
          else partition_targets E ts e (solver_targets @ [(t, v)]))"

text \<open>\<open>errors = dict([(z, targets[z] - results[z]) for z in targets])\<close>\<close>

fun errors_of :: "dict \<Rightarrow> dict \<Rightarrow> error + dict" where
  "errors_of [] results = Inr []"
| "errors_of ((z, target) # ts) results =
     (case getitem results z of
        Inl x \<Rightarrow> Inl x
      | Inr actual \<Rightarrow>
          (case errors_of ts results of
             Inl x \<Rightarrow> Inl x
           | Inr errs \<Rightarrow> Inr ((z, target - actual) # errs)))"

text \<open>\<open>Solver.isconverged\<close>, with its constant \<open>conv_crit = 1e-6\<close>.\<close>

definition isconverged :: "dict \<Rightarrow> bool" where
  "isconverged errors = list_all (\<lambda>(z, err). \<bar>err\<bar> < 1 / 1000000) errors"

text \<open>The inner loop of \<open>generate_jacobian\<close>: one gradient per name in \<open>self.targets\<close>.\<close>

fun gradient_row :: "string list \<Rightarrow> dict \<Rightarrow> dict \<Rightarrow> real \<Rightarrow> error + dict" where
  "gradient_row [] calcd_outputs defaults pert = Inr []"
| "gradient_row (output_name # names) calcd_outputs defaults pert =
     (case getitem calcd_outputs output_name of
        Inl x \<Rightarrow> Inl x
      | Inr val \<Rightarrow>
          (case getitem defaults output_name of
             Inl x \<Rightarrow> Inl x
           | Inr dflt \<Rightarrow>
               if pert = 0 then Inl ZeroDivisionError
               else
                 (case gradient_row names calcd_outputs defaults pert of
                    Inl x \<Rightarrow> Inl x
                  | Inr row \<Rightarrow> Inr ((output_name, (val - dflt) / pert) # row))))"

text \<open>
  The outer loop of \<open>generate_jacobian\<close>: for every input name, perturb that input, invoke
  \<open>calculate\<close>, and build the row of gradients.
\<close>

fun jacobian_rows ::
  "'e evaluable \<Rightarrow> (string \<times> setting) list \<Rightarrow> dict \<Rightarrow> dict \<Rightarrow> string list \<Rightarrow> dict
     \<Rightarrow> 'e machine \<Rightarrow> error + (string \<times> dict) list \<times> 'e machine" where
  "jacobian_rows E isets solver_targets current_values [] defaults m = Inr ([], m)"
| "jacobian_rows E isets solver_targets current_values (input_name # names) defaults m =
     (case map_of isets input_name of
        None \<Rightarrow> Inl KeyError
      | Some st \<Rightarrow>
          (let new_values =
                 map (\<lambda>(k, v). if k = input_name then (k, v + perturbation st) else (k, v))
                   current_values
           in case engine_calculate E new_values m of
                Inl x \<Rightarrow> Inl x
              | Inr (calcd_outputs, m1) \<Rightarrow>
                  (case gradient_row (map fst solver_targets) calcd_outputs defaults
                          (perturbation st) of
                     Inl x \<Rightarrow> Inl x
                   | Inr row \<Rightarrow>
                       (case jacobian_rows E isets solver_targets current_values names
                               defaults m1 of
                          Inl x \<Rightarrow> Inl x
                        | Inr (rows, m2) \<Rightarrow> Inr ((input_name, row) # rows, m2)))))"

text \<open>\<open>Solver.generate_jacobian\<close>: a baseline evaluation, then the loop over the inputs.\<close>

definition generate_jacobian ::
  "'e evaluable \<Rightarrow> (string \<times> setting) list \<Rightarrow> dict \<Rightarrow> dict \<Rightarrow> 'e machine
     \<Rightarrow> error + (string \<times> dict) list \<times> 'e machine" where
  "generate_jacobian E isets solver_targets current_values m =
     (case engine_calculate E current_values m of
        Inl x \<Rightarrow> Inl x
      | Inr (defaults, m1) \<Rightarrow>
          jacobian_rows E isets solver_targets current_values (map fst current_values)
            defaults m1)"

text \<open>\<open>[d[k] for k in ks]\<close> and \<open>[[gradients[x][z] for x in xs] for z in zs]\<close>\<close>

fun getitems :: "dict \<Rightarrow> string list \<Rightarrow> error + real list" where
  "getitems d [] = Inr []"
| "getitems d (k # ks) =
     (case getitem d k of
        Inl x \<Rightarrow> Inl x
      | Inr v \<Rightarrow> (case getitems d ks of Inl x \<Rightarrow> Inl x | Inr vs \<Rightarrow> Inr (v # vs)))"

fun matrix_row :: "(string \<times> dict) list \<Rightarrow> string \<Rightarrow> error + real list" where
  "matrix_row [] z = Inr []"
| "matrix_row ((x, row) # gs) z =
     (case getitem row z of
        Inl e \<Rightarrow> Inl e
      | Inr v \<Rightarrow> (case matrix_row gs z of Inl e \<Rightarrow> Inl e | Inr vs \<Rightarrow> Inr (v # vs)))"

fun jacobian_matrix :: "(string \<times> dict) list \<Rightarrow> string list \<Rightarrow> error + real list list" where
  "jacobian_matrix gradients [] = Inr []"
| "jacobian_matrix gradients (z # zs) =
     (case matrix_row gradients z of
        Inl e \<Rightarrow> Inl e
      | Inr r \<Rightarrow>
          (case jacobian_matrix gradients zs of Inl e \<Rightarrow> Inl e | Inr rs \<Rightarrow> Inr (r # rs)))"

text \<open>
  \<open>Solver.next_iteration\<close>.  The linear solver \<open>numpy.linalg.tensorsolve\<close> is not part of
  the repository: it is the parameter \<open>linsolve\<close>.  \<open>xs[0]\<close> raises \<open>IndexError\<close> when there
  is no input, and \<open>result[i]\<close> does when the solution is shorter than \<open>xs\<close>.
\<close>

definition next_iteration ::
  "'e evaluable \<Rightarrow> (real list list \<Rightarrow> real list \<Rightarrow> error + real list)
     \<Rightarrow> (string \<times> setting) list \<Rightarrow> dict \<Rightarrow> dict \<Rightarrow> dict \<Rightarrow> 'e machine
     \<Rightarrow> error + dict \<times> 'e machine" where
  "next_iteration E linsolve isets solver_targets current_values errors m =
     (case generate_jacobian E isets solver_targets current_values m of
        Inl x \<Rightarrow> Inl x
      | Inr (gradients, m1) \<Rightarrow>
          (case gradients of
             [] \<Rightarrow> Inl IndexError
           | (x0, row0) # _ \<Rightarrow>
               (case jacobian_matrix gradients (map fst row0) of
                  Inl x \<Rightarrow> Inl x
                | Inr J \<Rightarrow>
                    (case getitems errors (map fst row0) of
                       Inl x \<Rightarrow> Inl x
                     | Inr e \<Rightarrow>
                         (case linsolve J e of
                            Inl x \<Rightarrow> Inl x
                          | Inr result \<Rightarrow>
                              if length result < length gradients then Inl IndexError
                              else Inr (zip (map fst gradients) result, m1))))))"

text \<open>\<open>values = dict([(x, values[x] + corrections[x]) for x in values])\<close>\<close>

fun add_corrections :: "dict \<Rightarrow> dict \<Rightarrow> error + dict" where
  "add_corrections [] corrections = Inr []"
| "add_corrections ((x, v) # vs) corrections =
     (case getitem corrections x of
        Inl e \<Rightarrow> Inl e
      | Inr c \<Rightarrow>
          (case add_corrections vs corrections of
             Inl e \<Rightarrow> Inl e
           | Inr vs' \<Rightarrow> Inr ((x, v + c) # vs')))"

text \<open>
  The body of the \<open>while True\<close> loop of \<open>solve\<close> after the test of the iteration counter:
  either the loop is left with the current values (\<open>Done\<close>), or it goes round again with
  corrected values (\<open>Again\<close>).
\<close>

datatype 'e pass = Done dict "'e machine" | Again dict "'e machine"

definition loop_body ::
  "'e evaluable \<Rightarrow> (real list list \<Rightarrow> real list \<Rightarrow> error + real list)
     \<Rightarrow> (string \<times> setting) list \<Rightarrow> dict \<Rightarrow> dict \<Rightarrow> dict \<Rightarrow> 'e machine
     \<Rightarrow> error + 'e pass" where
  "loop_body E linsolve isets targets solver_targets vals m =
     (case engine_calculate E vals m of
        Inl x \<Rightarrow> Inl x
      | Inr (results, m1) \<Rightarrow>
          (case errors_of targets results of
             Inl x \<Rightarrow> Inl x
           | Inr errors \<Rightarrow>
               if isconverged errors then Inr (Done vals m1)
               else
                 (case next_iteration E linsolve isets solver_targets vals errors m1 of
                    Inl x \<Rightarrow> Inl x
                  | Inr (corrections, m2) \<Rightarrow>
                      (case add_corrections vals corrections of
                         Inl x \<Rightarrow> Inl x
                       | Inr vals' \<Rightarrow> Inr (Again vals' m2)))))"

text \<open>The \<open>while True\<close> loop of \<open>solve\<close>, with \<open>iter_limit = 100\<close>.\<close>

function solve_loop ::
  "'e evaluable \<Rightarrow> (real list list \<Rightarrow> real list \<Rightarrow> error + real list)
     \<Rightarrow> (string \<times> setting) list \<Rightarrow> dict \<Rightarrow> dict \<Rightarrow> nat \<Rightarrow> dict \<Rightarrow> 'e machine
     \<Rightarrow> error + dict \<times> 'e machine" where
  "solve_loop E linsolve isets targets solver_targets iteration vals m =
     (if iteration > 100 then Inl IterationLimit
      else
        (case loop_body E linsolve isets targets solver_targets vals m of
           Inl x \<Rightarrow> Inl x
         | Inr (Done vals' m') \<Rightarrow> Inr (vals', m')
         | Inr (Again vals' m') \<Rightarrow>
             solve_loop E linsolve isets targets solver_targets (iteration + 1) vals' m'))"
  by pat_completeness auto
termination
  by (relation "measure (\<lambda>(E, linsolve, isets, targets, solver_targets, iteration, vals, m).
        101 - iteration)") auto

declare solve_loop.simps [simp del]

text \<open>\<open>Solver.solve\<close>\<close>

definition solve ::
  "'e evaluable \<Rightarrow> (real list list \<Rightarrow> real list \<Rightarrow> error + real list)
     \<Rightarrow> (string \<times> setting) list \<Rightarrow> dict \<Rightarrow> 'e \<Rightarrow> error + dict \<times> 'e machine" where
  "solve E linsolve isets targets e =
     (case partition_targets E targets e [] of
        Inl x \<Rightarrow> Inl x
      | Inr (e1, solver_targets) \<Rightarrow>
          if length solver_targets \<noteq> length isets then Inl AssertionError
          else solve_loop E linsolve isets targets solver_targets 0
                 (map (\<lambda>(x, st). (x, sval st)) isets) \<lparr>engine = e1, evaluations = 0\<rparr>)"

text \<open>
  \<open>TestFunction\<close>: an object with a \<open>calculate\<close> method and nothing else.  A negative float
  raised to a fractional power is a \<open>ValueError\<close>.
\<close>

definition TestFunction :: "unit evaluable" where
  "TestFunction =
     \<lparr>input_aliases = (\<lambda>e. None),
      set_input_alias = (\<lambda>t v e. Inl AttributeError),
      calculate = (\<lambda>inputs e.
        case getitem inputs ''x'' of
          Inl err \<Rightarrow> Inl err
        | Inr x \<Rightarrow>
            (case getitem inputs ''y'' of
               Inl err \<Rightarrow> Inl err
             | Inr y \<Rightarrow>
                 if y < 0 \<or> x < 0 then Inl ValueError
                 else Inr ([(''z'', 3 * x + 0.1 * y powr 1.7 - 4),
                            (''zz'', 5 * x powr 3.1 - 0.1 * y - 1)], e)))\<rparr>"

text \<open>
  The values after \<open>k\<close> rounds of the loop that all went round again (\<open>None\<close> when one of
  them left the loop or raised), and the test that the loop applies to the current values:
  every error has an absolute value below the tolerance.
\<close>

fun iterates ::
  "'e evaluable \<Rightarrow> (real list list \<Rightarrow> real list \<Rightarrow> error + real list)
     \<Rightarrow> (string \<times> setting) list \<Rightarrow> dict \<Rightarrow> dict \<Rightarrow> nat \<Rightarrow> dict \<Rightarrow> 'e machine
     \<Rightarrow> (dict \<times> 'e machine) option" where
  "iterates E linsolve isets targets solver_targets 0 vals m = Some (vals, m)"
| "iterates E linsolve isets targets solver_targets (Suc k) vals m =
     (case loop_body E linsolve isets targets solver_targets vals m of
        Inr (Again vals' m') \<Rightarrow> iterates E linsolve isets targets solver_targets k vals' m'
      | _ \<Rightarrow> None)"

definition converged_at :: "'e evaluable \<Rightarrow> dict \<Rightarrow> dict \<Rightarrow> 'e machine \<Rightarrow> bool" where
  "converged_at E targets vals m =
     (case engine_calculate E vals m of
        Inl x \<Rightarrow> False
      | Inr (results, m1) \<Rightarrow>
          (case errors_of targets results of
             Inl x \<Rightarrow> False
           | Inr errors \<Rightarrow> list_all (\<lambda>(z, err). \<bar>err\<bar> < 1 / 1000000) errors))"

text \<open>
  The call of \<open>test2\<close> in solver.py, an object with one input and one output that is the
  input, a linear solver for one equation, and an object with one input alias.
\<close>

definition test2_input_settings :: "(string \<times> setting) list" where
  "test2_input_settings =
     [(''x'', \<lparr>perturbation = 1 / 100, sval = 2\<rparr>), (''y'', \<lparr>perturbation = 1 / 100, sval = 3\<rparr>)]"

definition test2_targets :: dict where
  "test2_targets = [(''z'', 10), (''zz'', 20)]"

definition line_engine :: "unit evaluable" where
  "line_engine =
     \<lparr>input_aliases = (\<lambda>e. Some []),
      set_input_alias = (\<lambda>t v e. Inl KeyError),
      calculate = (\<lambda>inputs e.
        case getitem inputs ''x'' of Inl err \<Rightarrow> Inl err | Inr x \<Rightarrow> Inr ([(''z'', x)], e))\<rparr>"

definition solve_1x1 :: "real list list \<Rightarrow> real list \<Rightarrow> error + real list" where
  "solve_1x1 J b =
     (case (J, b) of
        ([[a]], [c]) \<Rightarrow> if a = 0 then Inl LinAlgError else Inr [c / a]
      | _ \<Rightarrow> Inl LinAlgError)"

definition alias_plant :: "real evaluable" where
  "alias_plant =
     \<lparr>input_aliases = (\<lambda>e. Some [''RIT'']),
      set_input_alias = (\<lambda>t v e. if t = ''RIT'' then Inr v else Inl KeyError),
      calculate = (\<lambda>inputs e.
        case getitem inputs ''FLOW'' of
          Inl err \<Rightarrow> Inl err
        | Inr x \<Rightarrow> Inr ([(''THRUST'', x * e)], e))\<rparr>"

section \<open>The engine assembly of engines.py\<close>

text \<open>
  An \<open>EngineAssembly\<close> is an \<open>Engine\<close> with two alias tables.  Its objects are addressed by
  numbers: \<open>wiring\<close> holds the dependents and precedents lists of the calculables,
  \<open>environment\<close> is the address of the \<open>Environment\<close> station, \<open>components\<close> is the dict
  \<open>Engine.components\<close> from idents to addresses, and \<open>engine_attributes\<close> is the address of
  the plain dict \<open>Engine.attributes\<close>, which the constructor registers under the ident
  \<open>ENGINE\<close>.  The alias tables are dicts, kept as association lists in iteration order; an
  alias path is a pair of a component ident and a parameter name, as in every call of
  \<open>add_input_alias\<close> and \<open>add_output_alias\<close> in engines.py.

  The fields that the calculate methods read and write besides the attribute dicts (the
  pressure, temperature and flow of a station, the jet velocity of a nozzle, the power of a
  shaft, the airspeed of the environment) live in a store of locations.  \<open>calculate_of n\<close> is
  the \<open>calculate\<close> method of object \<open>n\<close>, \<open>thrust_of\<close> is the sum over the nozzles that
  \<open>Engine.calculate_thrust\<close> forms, and \<open>fuel_flow_of\<close> is the \<open>fuel_flow\<close> method of the
  component registered as \<open>COMBUSTOR\<close>, applied to that component's attributes.
\<close>

record 'v assembly =
  wiring :: graph
  environment :: nat
  engine_attributes :: nat
  components :: "string \<rightharpoonup> nat"
  input_alias_paths :: "(string \<times> string \<times> string) list"
  output_alias_paths :: "(string \<times> string \<times> string) list"
  calculate_of :: "nat \<Rightarrow> (string \<rightharpoonup> real) \<Rightarrow> (nat \<Rightarrow> 'v) \<Rightarrow> (nat \<Rightarrow> 'v) outcome"
  thrust_of :: "(nat \<Rightarrow> 'v) \<Rightarrow> error + real"
  fuel_flow_of :: "(string \<rightharpoonup> real) \<Rightarrow> (nat \<Rightarrow> 'v) \<Rightarrow> error + real"

text \<open>
  \<open>Combustor.fuel_flow\<close>.  The specific heat \<open>cp\<close> is a constant of the module and is passed
  in.  A missing \<open>FHV\<close> is a \<open>KeyError\<close>, and Python raises \<open>ZeroDivisionError\<close> on a division
  of floats by zero.
\<close>

definition Combustor_fuel_flow ::
  "real \<Rightarrow> flow_component \<Rightarrow> (string \<rightharpoonup> real) \<Rightarrow> (nat \<Rightarrow> station) \<Rightarrow> error + real" where
  "Combustor_fuel_flow cp c attrs st =
     (let w0 = stn_w (st (inlet c)); t0 = stn_t (st (inlet c)); t1 = stn_t (st (exit c))
      in case attrs ''FHV'' of
           None \<Rightarrow> Inl KeyError
         | Some fhv \<Rightarrow>
             if fhv = 0 then Inl ZeroDivisionError else Inr (w0 * cp * (t1 - t0) / fhv))"

text \<open>
  \<open>EngineAssembly.set_input_alias\<close> looks the alias up, walks to the component and assigns
  the parameter; either lookup may raise \<open>KeyError\<close>.  On the dict registered as \<open>ENGINE\<close>
  the assignment is a plain dict store, on a component it is \<open>Component.__setitem__\<close>.
  \<open>set_inputs\<close> does this for every item of the input dict in turn, and an exception leaves
  the loop.
\<close>

definition store_attribute ::
  "(nat \<Rightarrow> (string \<rightharpoonup> real)) \<Rightarrow> nat \<Rightarrow> string \<Rightarrow> real \<Rightarrow> (nat \<Rightarrow> (string \<rightharpoonup> real))" where
  "store_attribute tbl a key v = tbl(a := (tbl a)(key \<mapsto> v))"

definition EngineAssembly_set_input_alias ::
  "nat \<Rightarrow> 'v assembly \<Rightarrow> (nat \<Rightarrow> 'v) state \<Rightarrow> string \<Rightarrow> real \<Rightarrow> (nat \<Rightarrow> 'v) state outcome option" where
  "EngineAssembly_set_input_alias k A s alias v =
     (case map_of (input_alias_paths A) alias of
        None \<Rightarrow> Some (Raised KeyError s)
      | Some (ident, param) \<Rightarrow>
          (case components A ident of
             None \<Rightarrow> Some (Raised KeyError s)
           | Some a \<Rightarrow>
               if a = engine_attributes A
               then Some (Returned (s\<lparr>attributes := store_attribute (attributes s) a param v\<rparr>))
               else setitem k (wiring A) s a param v))"

fun EngineAssembly_set_inputs ::
  "nat \<Rightarrow> 'v assembly \<Rightarrow> dict \<Rightarrow> (nat \<Rightarrow> 'v) state \<Rightarrow> (nat \<Rightarrow> 'v) state outcome option" where
  "EngineAssembly_set_inputs k A [] s = Some (Returned s)"
| "EngineAssembly_set_inputs k A ((alias, v) # rest) s =
     (case EngineAssembly_set_input_alias k A s alias v of
        Some (Returned s') \<Rightarrow> EngineAssembly_set_inputs k A rest s'
      | r \<Rightarrow> r)"

text \<open>
  \<open>Engine.update\<close> marks the environment and everything downstream dirty, updates from the
  environment, and then stores \<open>THRUST\<close>, \<open>FUEL_FLOW\<close> and \<open>SFC\<close> in the engine's own dict.
  \<open>calculate_attributes\<close> reads \<open>THRUST\<close> back from that dict and divides by it.
\<close>

definition calculate_thrust :: "'v assembly \<Rightarrow> (nat \<Rightarrow> 'v) state \<Rightarrow> (nat \<Rightarrow> 'v) state outcome" where
  "calculate_thrust A s =
     (case thrust_of A (payload s) of
        Inl e \<Rightarrow> Raised e s
      | Inr thrust \<Rightarrow>
          Returned (s\<lparr>attributes :=
            store_attribute (attributes s) (engine_attributes A) ''THRUST'' thrust\<rparr>))"

definition calculate_attributes :: "'v assembly \<Rightarrow> (nat \<Rightarrow> 'v) state \<Rightarrow> (nat \<Rightarrow> 'v) state outcome" where
  "calculate_attributes A s =
     (case components A ''COMBUSTOR'' of
        None \<Rightarrow> Raised KeyError s
      | Some c \<Rightarrow>
          (case fuel_flow_of A (attributes s c) (payload s) of
             Inl e \<Rightarrow> Raised e s
           | Inr fuel_flow \<Rightarrow>
               (let s1 = s\<lparr>attributes :=
                           store_attribute (attributes s) (engine_attributes A) ''FUEL_FLOW'' fuel_flow\<rparr>
                in case attributes s1 (engine_attributes A) ''THRUST'' of
                     None \<Rightarrow> Raised KeyError s1
                   | Some fn \<Rightarrow>
                       if fn = 0 then Raised ZeroDivisionError s1
                       else Returned (s1\<lparr>attributes :=
                              store_attribute (attributes s1) (engine_attributes A) ''SFC''
                                (fuel_flow / fn)\<rparr>))))"

definition Engine_update ::
  "nat \<Rightarrow> 'v assembly \<Rightarrow> (nat \<Rightarrow> 'v) state \<Rightarrow> (nat \<Rightarrow> 'v) state outcome option" where
  "Engine_update k A s =
     (case make_dirty k (wiring A) s (environment A) of
        None \<Rightarrow> None
      | Some s1 \<Rightarrow>
          (case update k (wiring A) (calculate_of A) s1 (environment A) of
             None \<Rightarrow> None
           | Some (Raised e s2) \<Rightarrow> Some (Raised e s2)
           | Some (Returned s2) \<Rightarrow>
               (case calculate_thrust A s2 of
                  Raised e s3 \<Rightarrow> Some (Raised e s3)
                | Returned s3 \<Rightarrow> Some (calculate_attributes A s3))))"

text \<open>
  \<open>get_outputs\<close> walks the output aliases in order and reads each one through
  \<open>Engine.__getitem__\<close> and the \<open>__getitem__\<close> of the component or dict found there.
\<close>

fun EngineAssembly_get_outputs ::
  "'v assembly \<Rightarrow> (nat \<Rightarrow> 'v) state \<Rightarrow> (string \<times> string \<times> string) list \<Rightarrow> error + dict" where
  "EngineAssembly_get_outputs A s [] = Inr []"
| "EngineAssembly_get_outputs A s ((k, ident, name) # rest) =
     (case components A ident of
        None \<Rightarrow> Inl KeyError
      | Some a \<Rightarrow>
          (case attributes s a name of
             None \<Rightarrow> Inl KeyError
           | Some v \<Rightarrow>
               (case EngineAssembly_get_outputs A s rest of
                  Inl e \<Rightarrow> Inl e
                | Inr outputs \<Rightarrow> Inr ((k, v) # outputs))))"

text \<open>
  \<open>EngineAssembly.calculate\<close>: set the inputs, update, collect the outputs.  The result is
  the exception raised or the outputs, together with the state that the call leaves behind;
  it is \<open>None\<close> only when the fuel \<open>k\<close> did not suffice for the recursion through the network.
\<close>

definition EngineAssembly_calculate ::
  "nat \<Rightarrow> 'v assembly \<Rightarrow> (nat \<Rightarrow> 'v) state \<Rightarrow> dict \<Rightarrow> ((error + dict) \<times> (nat \<Rightarrow> 'v) state) option" where
  "EngineAssembly_calculate k A s input_dict =
     (case EngineAssembly_set_inputs k A input_dict s of
        None \<Rightarrow> None
      | Some (Raised e s1) \<Rightarrow> Some (Inl e, s1)
      | Some (Returned s1) \<Rightarrow>
          (case Engine_update k A s1 of
             None \<Rightarrow> None
           | Some (Raised e s2) \<Rightarrow> Some (Inl e, s2)
           | Some (Returned s2) \<Rightarrow> Some (EngineAssembly_get_outputs A s2 (output_alias_paths A), s2)))"

subsection \<open>Order of computation, read sets and write sets\<close>

text \<open>
  Within the objects \<open>D\<close> downstream of a root \<open>r\<close>, \<open>update\<close> computes an object only after
  each of its precedents, and only from the \<open>update\<close> of an object that lists it as a
  dependent.  So \<open>a\<close> is computed before \<open>b\<close> when \<open>a\<close> is a precedent of \<open>b\<close>, or when \<open>a\<close> is
  the only object of \<open>D\<close> that has \<open>b\<close> among its dependents.  A state is \<open>sound\<close> when its clean
  objects respect this: their precedents are clean, and unless they are the root some object
  that lists them as a dependent is clean.
\<close>

definition before :: "graph \<Rightarrow> nat set \<Rightarrow> nat \<Rightarrow> (nat \<times> nat) set" where
  "before g D r =
     {(p, n). n \<in> D \<and> p \<in> set (precedents g n)} \<union>
     {(m, n). n \<in> D \<and> n \<noteq> r \<and> m \<in> D \<and> n \<in> set (dependents g m)
              \<and> (\<forall>m' \<in> D. n \<in> set (dependents g m') \<longrightarrow> m' = m)}"

definition sound :: "graph \<Rightarrow> nat set \<Rightarrow> nat \<Rightarrow> 'p state \<Rightarrow> bool" where
  "sound g D r s =
     (\<forall>n \<in> D. \<not> dirty s n \<longrightarrow>
        \<not> list_ex (dirty s) (precedents g n) \<and>
        (n = r \<or> (\<exists>m \<in> D. n \<in> set (dependents g m) \<and> \<not> dirty s m)))"

text \<open>
  The calculate methods are \<open>disciplined\<close> for read sets and write sets of locations when
  a method changes no location outside its write set, when its returning and the values it
  writes are determined by the attributes and the locations of its read set, and when every
  location that an object reads and some object of \<open>D\<close> writes is written by another object
  that is computed before the reader.
\<close>

definition disciplined ::
  "graph \<Rightarrow> nat set \<Rightarrow> nat \<Rightarrow> (nat \<Rightarrow> (string \<rightharpoonup> real) \<Rightarrow> (nat \<Rightarrow> 'v) \<Rightarrow> (nat \<Rightarrow> 'v) outcome)
     \<Rightarrow> (nat \<Rightarrow> nat set) \<Rightarrow> (nat \<Rightarrow> nat set) \<Rightarrow> bool" where
  "disciplined g D r calc reads writes =
     ((\<forall>n a x x' l. n \<in> D \<and> calc n a x = Returned x' \<and> l \<notin> writes n \<longrightarrow> x' l = x l) \<and>
      (\<forall>n a x x' y. n \<in> D \<and> calc n a x = Returned x' \<and> (\<forall>l \<in> reads n. y l = x l) \<longrightarrow>
         (\<exists>y'. calc n a y = Returned y' \<and> (\<forall>l \<in> writes n. y' l = x' l))) \<and>
      (\<forall>n l. n \<in> D \<and> l \<in> reads n \<and> (\<exists>w \<in> D. l \<in> writes w) \<longrightarrow>
         (\<exists>w \<in> D. w \<noteq> n \<and> l \<in> writes w \<and> (w, n) \<in> (before g D r)\<^sup>+)))"

text \<open>
  Two states \<open>agree\<close> when they hold the same value at every location that no object of \<open>D\<close>
  writes or that a clean object of the first state writes.  They are \<open>alike\<close> when moreover
  the flags and the attributes of the objects of \<open>D\<close> coincide.
\<close>

definition agree :: "nat set \<Rightarrow> (nat \<Rightarrow> nat set) \<Rightarrow> (nat \<Rightarrow> 'v) state \<Rightarrow> (nat \<Rightarrow> 'v) state \<Rightarrow> bool" where
  "agree D writes s t =
     (\<forall>l. (\<forall>w \<in> D. l \<notin> writes w) \<or> (\<exists>w \<in> D. l \<in> writes w \<and> \<not> dirty s w)
        \<longrightarrow> payload t l = payload s l)"

definition alike :: "nat set \<Rightarrow> (nat \<Rightarrow> nat set) \<Rightarrow> (nat \<Rightarrow> 'v) state \<Rightarrow> (nat \<Rightarrow> 'v) state \<Rightarrow> bool" where
  "alike D writes s t =
     ((\<forall>m \<in> D. dirty t m = dirty s m) \<and> (\<forall>a \<in> D. attributes t a = attributes s a)
      \<and> agree D writes s t)"

text \<open>
  The attribute stores that \<open>set_inputs\<close> performs for an input dict, a replay of such
  stores on the attribute dicts, the value that a replay leaves under a key, and the three
  stores of \<open>calculate_thrust\<close> and \<open>calculate_attributes\<close>.
\<close>

fun resolved :: "'v assembly \<Rightarrow> dict \<Rightarrow> (nat \<times> string \<times> real) list" where
  "resolved A [] = []"
| "resolved A ((alias, v) # rest) =
     (case map_of (input_alias_paths A) alias of
        None \<Rightarrow> resolved A rest
      | Some (ident, param) \<Rightarrow>
          (case components A ident of
             None \<Rightarrow> resolved A rest
           | Some a \<Rightarrow> (a, param, v) # resolved A rest))"

fun apply_writes ::
  "(nat \<times> string \<times> real) list \<Rightarrow> (nat \<Rightarrow> (string \<rightharpoonup> real)) \<Rightarrow> (nat \<Rightarrow> (string \<rightharpoonup> real))" where
  "apply_writes [] tbl = tbl"
| "apply_writes ((a, key, v) # ws) tbl = apply_writes ws (store_attribute tbl a key v)"

fun last_write :: "(nat \<times> string \<times> real) list \<Rightarrow> nat \<Rightarrow> string \<Rightarrow> real option" where
  "last_write [] a k = None"
| "last_write ((a', k', v) # ws) a k =
     (case last_write ws a k of
        Some v' \<Rightarrow> Some v'
      | None \<Rightarrow> if a' = a \<and> k' = k then Some v else None)"

definition aggregates ::
  "(nat \<Rightarrow> (string \<rightharpoonup> real)) \<Rightarrow> nat \<Rightarrow> real \<Rightarrow> real \<Rightarrow> (nat \<Rightarrow> (string \<rightharpoonup> real))" where
  "aggregates tbl e x y =
     store_attribute (store_attribute (store_attribute tbl e ''THRUST'' x) e ''FUEL_FLOW'' y)
       e ''SFC'' (y / x)"

section \<open>Example networks\<close>

text \<open>A chain of two objects: object 1 depends on object 0.\<close>

definition chain :: graph where
  "chain = \<lparr>dependents = (\<lambda>n. if n = 0 then [1] else []),
            precedents = (\<lambda>n. if n = 1 then [0] else [])\<rparr>"

text \<open>The state right after construction: every object is dirty, nothing was computed.\<close>

definition fresh_built :: "unit state" where
  "fresh_built = \<lparr>dirty = (\<lambda>n. True), attributes = (\<lambda>n. Map.empty), payload = (),
                  computed = []\<rparr>"

definition calc_pass :: "nat \<Rightarrow> (string \<rightharpoonup> real) \<Rightarrow> unit \<Rightarrow> unit outcome" where
  "calc_pass n attrs x = Returned x"

definition calc_fail :: "nat \<Rightarrow> (string \<rightharpoonup> real) \<Rightarrow> unit \<Rightarrow> unit outcome" where
  "calc_fail n attrs x = Raised NotImplementedError x"

text \<open>
  A diamond: objects 1 and 2 depend on 0, and 3 depends on both.  And a network with a
  shortcut: 1, 2 and 3 depend on 0, and 2 depends on 1 as well.
\<close>

definition diamond :: graph where
  "diamond = \<lparr>dependents = (\<lambda>n. if n = 0 then [1, 2] else if n = 1 then [3]
                              else if n = 2 then [3] else []),
              precedents = (\<lambda>n. if n = 1 then [0] else if n = 2 then [0]
                              else if n = 3 then [1, 2] else [])\<rparr>"

definition shortcut :: graph where
  "shortcut = \<lparr>dependents = (\<lambda>n. if n = 0 then [1, 2, 3] else if n = 1 then [2] else []),
               precedents = (\<lambda>n. if n = 1 then [0] else if n = 2 then [0, 1]
                               else if n = 3 then [0] else [])\<rparr>"

text \<open>
  A shaft driven by two compressors in series, wired with the calls of performance.py:
  \<open>connect_stations\<close> on the fan (station 0 to station 2), on the second compressor
  (2 to 4), on the combustor (4 to 6) and on the turbine (6 to 9), then \<open>add_driven\<close> on the
  shaft for the fan and for the second compressor, and \<open>add_turbine\<close>.  The objects are:
  0 inlet station, 1 fan, 2 station, 3 second compressor, 4 station, 5 combustor, 6 station,
  7 shaft, 8 turbine, 9 exit station.
\<close>

definition two_compressors :: graph where
  "two_compressors =
     \<lparr>dependents = (\<lambda>n. if n = 0 then [1] else if n = 1 then [2, 7] else if n = 2 then [3]
                        else if n = 3 then [4, 7] else if n = 4 then [5] else if n = 5 then [6]
                        else if n = 6 then [8] else if n = 7 then [8] else if n = 8 then [9]
                        else []),
      precedents = (\<lambda>n. if n = 1 then [0] else if n = 2 then [1] else if n = 3 then [2]
                        else if n = 4 then [3] else if n = 5 then [4] else if n = 6 then [5]
                        else if n = 7 then [1, 3] else if n = 8 then [6, 7]
                        else if n = 9 then [8] else [])\<rparr>"

text \<open>A state in which every object is clean.\<close>

definition all_clean :: "unit state" where
  "all_clean = \<lparr>dirty = (\<lambda>n. False), attributes = (\<lambda>n. Map.empty), payload = (),
                computed = []\<rparr>"

text \<open>A splitter between station 0 and stations 1 and 2, and a combustor from 0 to 1.\<close>

definition splitter_012 :: splitter where
  "splitter_012 = \<lparr>spl_inlet = 0, exit0 = 1, exit1 = 2\<rparr>"

definition combustor_01 :: flow_component where
  "combustor_01 = \<lparr>inlet = 0, exit = 1\<rparr>"

definition ambient_stations :: "nat \<Rightarrow> station" where
  "ambient_stations = (\<lambda>n. \<lparr>stn_p = 30000, stn_t = 300, stn_w = 1\<rparr>)"

text \<open>
  A small assembly: the environment station 0 feeds a combustor, object 1, whose exit is
  station 2; the engine's own dict has address 3.  Stations compute nothing, which is the
  default \<open>Calculable.calculate\<close>.  The input alias \<open>DT\<close> is the temperature rise of the
  combustor, the output aliases are those of the engines of engines.py, and the thrust is
  taken from the flow and the temperature at station 2.  The combustor reads station 0 and
  writes station 2.
\<close>

definition heater_wiring :: graph where
  "heater_wiring = \<lparr>dependents = (\<lambda>n. if n = 0 then [1] else if n = 1 then [2] else []),
                    precedents = (\<lambda>n. if n = 1 then [0] else if n = 2 then [1] else [])\<rparr>"

definition heater :: "station assembly" where
  "heater =
     \<lparr>wiring = heater_wiring,
      environment = 0,
      engine_attributes = 3,
      components = [''ENGINE'' \<mapsto> 3, ''COMBUSTOR'' \<mapsto> 1],
      input_alias_paths = [(''DT'', ''COMBUSTOR'', ''deltaT'')],
      output_alias_paths = [(''SFC'', ''ENGINE'', ''SFC''), (''THRUST'', ''ENGINE'', ''THRUST'')],
      calculate_of = (\<lambda>n. if n = 1 then Combustor_calculate \<lparr>inlet = 0, exit = 2\<rparr>
                            else (\<lambda>attrs st. Returned st)),
      thrust_of = (\<lambda>st. Inr (stn_w (st 2) * stn_t (st 2))),
      fuel_flow_of = Combustor_fuel_flow 1004 \<lparr>inlet = 0, exit = 2\<rparr>\<rparr>"

definition heater_built :: "(nat \<Rightarrow> station) state" where
  "heater_built =
     \<lparr>dirty = (\<lambda>n. True),
      attributes = (\<lambda>n. if n = 1 then [''deltaT'' \<mapsto> 100, ''FHV'' \<mapsto> 1000] else Map.empty),
      payload = ambient_stations,
      computed = []\<rparr>"

definition heater_reads :: "nat \<Rightarrow> nat set" where
  "heater_reads n = (if n = 1 then {0} else {})"

definition heater_writes :: "nat \<Rightarrow> nat set" where
  "heater_writes n = (if n = 1 then {2} else {})"

section \<open>Properties of update\<close>

text \<open>
  C2.  With any positive recursion depth, \<open>update\<close> on an object that is not dirty raises
  \<open>AssertionError\<close> and changes nothing.  On an object that is dirty and has at least one
  dirty precedent it returns normally with the state as it was: the flag is still set,
  \<open>calculate\<close> was not invoked (the trace is unchanged) and no dependent was touched.
\<close>

theorem update_fresh_or_blocked:
  "(\<not> dirty s n \<longrightarrow> update (Suc k) g calc s n = Some (Raised AssertionError s)) \<and>
   (dirty s n \<and> list_ex (dirty s) (precedents g n) \<longrightarrow>
      update (Suc k) g calc s n = Some (Returned s))"
  by simp

theorem update_fresh_or_blocked_witness:
  "\<not> dirty (fresh_built\<lparr>dirty := (\<lambda>n. n \<noteq> 0)\<rparr>) 0 \<and>
   update (Suc 0) chain calc_pass (fresh_built\<lparr>dirty := (\<lambda>n. n \<noteq> 0)\<rparr>) 0
     = Some (Raised AssertionError (fresh_built\<lparr>dirty := (\<lambda>n. n \<noteq> 0)\<rparr>)) \<and>
   dirty fresh_built 1 \<and> list_ex (dirty fresh_built) (precedents chain 1) \<and>
   update (Suc 0) chain calc_pass fresh_built 1 = Some (Returned fresh_built)"
proof -
  have a: "\<not> dirty (fresh_built\<lparr>dirty := (\<lambda>n. n \<noteq> 0)\<rparr>) 0"
    by simp
  have b: "dirty fresh_built 1 \<and> list_ex (dirty fresh_built) (precedents chain 1)"
    by (simp add: fresh_built_def chain_def)
  from a b
    update_fresh_or_blocked [of "fresh_built\<lparr>dirty := (\<lambda>n. n \<noteq> 0)\<rparr>" 0 0 chain calc_pass]
    update_fresh_or_blocked [of fresh_built 1 0 chain calc_pass]
  show ?thesis by blast
qed

text \<open>
  C10.  When the object is dirty and all its precedents are clean, \<open>update\<close> clears the flag
  before it invokes \<open>calculate\<close>.  If \<open>calculate\<close> raises, the exception leaves \<open>update\<close>
  with the flag of the object cleared; the loop over the dependents is never entered, so
  every other flag is as before and the trace has grown by this one invocation only.
\<close>

theorem update_calculate_raises:
  assumes "dirty s n"
    and "\<not> list_ex (dirty s) (precedents g n)"
    and "calc n (attributes s n) (payload s) = Raised e x"
  shows "update (Suc k) g calc s n
           = Some (Raised e (s\<lparr>dirty := (dirty s)(n := False), computed := computed s @ [n],
                               payload := x\<rparr>))"
  using assms by simp

theorem update_calculate_raises_witness:
  "dirty fresh_built 0 \<and> \<not> list_ex (dirty fresh_built) (precedents chain 0) \<and>
   calc_fail 0 (attributes fresh_built 0) (payload fresh_built) = Raised NotImplementedError () \<and>
   update (Suc 0) chain calc_fail fresh_built 0
     = Some (Raised NotImplementedError
          (fresh_built\<lparr>dirty := (dirty fresh_built)(0 := False),
             computed := computed fresh_built @ [0], payload := ()\<rparr>)) \<and>
   \<not> dirty (fresh_built\<lparr>dirty := (dirty fresh_built)(0 := False),
             computed := computed fresh_built @ [0], payload := ()\<rparr>) 0 \<and>
   dirty (fresh_built\<lparr>dirty := (dirty fresh_built)(0 := False),
             computed := computed fresh_built @ [0], payload := ()\<rparr>) 1"
proof -
  have a: "dirty fresh_built 0"
    by (simp add: fresh_built_def)
  have b: "\<not> list_ex (dirty fresh_built) (precedents chain 0)"
    by (simp add: chain_def)
  have c: "calc_fail 0 (attributes fresh_built 0) (payload fresh_built)
             = Raised NotImplementedError ()"
    by (simp add: calc_fail_def)
  have d: "dirty fresh_built 1"
    by (simp add: fresh_built_def)
  note r = update_calculate_raises
    [of fresh_built 0 chain calc_fail NotImplementedError "()" 0, OF a b c]
  from a b c d r show ?thesis
    by simp
qed

section \<open>Staleness propagation on acyclic networks\<close>

subsection \<open>Reachability and depth\<close>

lemma finite_reach:
  assumes "finite (deps_rel g)"
  shows "finite {m. (n, m) \<in> (deps_rel g)\<^sup>+}"
proof -
  have "{m. (n, m) \<in> (deps_rel g)\<^sup>+} \<subseteq> snd ` deps_rel g"
  proof
    fix m assume "m \<in> {m. (n, m) \<in> (deps_rel g)\<^sup>+}"
    then have "(n, m) \<in> (deps_rel g)\<^sup>+" by simp
    then obtain z where "(z, m) \<in> deps_rel g" by (auto elim: tranclE)
    then show "m \<in> snd ` deps_rel g" by force
  qed
  with assms show ?thesis by (auto intro: finite_subset)
qed

lemma depth_le_card:
  assumes "finite (deps_rel g)"
  shows "depth g n \<le> card (deps_rel g)"
proof -
  have "{m. (n, m) \<in> (deps_rel g)\<^sup>+} \<subseteq> snd ` deps_rel g"
  proof
    fix m assume "m \<in> {m. (n, m) \<in> (deps_rel g)\<^sup>+}"
    then have "(n, m) \<in> (deps_rel g)\<^sup>+" by simp
    then obtain z where "(z, m) \<in> deps_rel g" by (auto elim: tranclE)
    then show "m \<in> snd ` deps_rel g" by force
  qed
  then have "depth g n \<le> card (snd ` deps_rel g)"
    unfolding depth_def using assms by (intro card_mono) auto
  also have "\<dots> \<le> card (deps_rel g)"
    using assms by (rule card_image_le)
  finally show ?thesis .
qed

lemma depth_less:
  assumes fin: "finite (deps_rel g)" and acyc: "acyclic (deps_rel g)"
    and d: "d \<in> set (dependents g n)"
  shows "depth g d < depth g n"
proof -
  from d have e: "(n, d) \<in> deps_rel g" by (simp add: deps_rel_def)
  have sub: "{m. (d, m) \<in> (deps_rel g)\<^sup>+} \<subseteq> {m. (n, m) \<in> (deps_rel g)\<^sup>+}"
    using e by (auto intro: trancl_into_trancl2)
  have "d \<in> {m. (n, m) \<in> (deps_rel g)\<^sup>+}" using e by auto
  moreover have "d \<notin> {m. (d, m) \<in> (deps_rel g)\<^sup>+}"
    using acyc by (auto simp: acyclic_def)
  ultimately have "{m. (d, m) \<in> (deps_rel g)\<^sup>+} \<subset> {m. (n, m) \<in> (deps_rel g)\<^sup>+}"
    using sub by blast
  then show ?thesis
    unfolding depth_def using finite_reach [OF fin] by (intro psubset_card_mono) auto
qed

lemma depth_le_reach:
  assumes fin: "finite (deps_rel g)" and r: "(n, m) \<in> (deps_rel g)\<^sup>*"
  shows "depth g m \<le> depth g n"
proof -
  have "{x. (m, x) \<in> (deps_rel g)\<^sup>+} \<subseteq> {x. (n, x) \<in> (deps_rel g)\<^sup>+}"
    using r by (auto intro: rtrancl_trancl_trancl)
  then show ?thesis
    unfolding depth_def using finite_reach [OF fin] by (intro card_mono) auto
qed

lemma reach_unfold:
  "((n, m) \<in> (deps_rel g)\<^sup>*) = (m = n \<or> (\<exists>d \<in> set (dependents g n). (d, m) \<in> (deps_rel g)\<^sup>*))"
proof
  assume "(n, m) \<in> (deps_rel g)\<^sup>*"
  then show "m = n \<or> (\<exists>d \<in> set (dependents g n). (d, m) \<in> (deps_rel g)\<^sup>*)"
  proof (cases rule: converse_rtranclE)
    case base
    then show ?thesis by simp
  next
    case (step y)
    then have "y \<in> set (dependents g n)" by (simp add: deps_rel_def)
    with step show ?thesis by blast
  qed
next
  assume "m = n \<or> (\<exists>d \<in> set (dependents g n). (d, m) \<in> (deps_rel g)\<^sup>*)"
  then show "(n, m) \<in> (deps_rel g)\<^sup>*"
  proof
    assume "m = n" then show ?thesis by simp
  next
    assume "\<exists>d \<in> set (dependents g n). (d, m) \<in> (deps_rel g)\<^sup>*"
    then obtain d where "d \<in> set (dependents g n)" "(d, m) \<in> (deps_rel g)\<^sup>*" by blast
    then have "(n, d) \<in> deps_rel g" by (simp add: deps_rel_def)
    from this \<open>(d, m) \<in> (deps_rel g)\<^sup>*\<close> show ?thesis
      by (rule converse_rtrancl_into_rtrancl)
  qed
qed

subsection \<open>make_dirty marks the transitive dependents\<close>

lemma for_each_mark_make_dirty:
  assumes IH: "\<And>(s::'p state) d. d \<in> set ds \<Longrightarrow>
      make_dirty k g s d = Some (s\<lparr>dirty := (\<lambda>m. dirty s m \<or> (d, m) \<in> (deps_rel g)\<^sup>*)\<rparr>)"
  shows "for_each_mark (make_dirty k g) ds (s::'p state)
           = Some (s\<lparr>dirty := (\<lambda>m. dirty s m \<or> (\<exists>d \<in> set ds. (d, m) \<in> (deps_rel g)\<^sup>*))\<rparr>)"
  using IH
proof (induction ds arbitrary: s)
  case Nil
  show ?case by simp
next
  case (Cons a ds)
  have a: "make_dirty k g s a = Some (s\<lparr>dirty := (\<lambda>m. dirty s m \<or> (a, m) \<in> (deps_rel g)\<^sup>*)\<rparr>)"
    by (rule Cons.prems) simp
  have "for_each_mark (make_dirty k g) ds (s\<lparr>dirty := (\<lambda>m. dirty s m \<or> (a, m) \<in> (deps_rel g)\<^sup>*)\<rparr>)
     = Some ((s\<lparr>dirty := (\<lambda>m. dirty s m \<or> (a, m) \<in> (deps_rel g)\<^sup>*)\<rparr>)
          \<lparr>dirty := (\<lambda>m. dirty (s\<lparr>dirty := (\<lambda>m. dirty s m \<or> (a, m) \<in> (deps_rel g)\<^sup>*)\<rparr>) m
                  \<or> (\<exists>d \<in> set ds. (d, m) \<in> (deps_rel g)\<^sup>*))\<rparr>)"
    by (rule Cons.IH) (rule Cons.prems, simp)
  moreover have "(\<lambda>m. (dirty s m \<or> (a, m) \<in> (deps_rel g)\<^sup>*) \<or> (\<exists>d \<in> set ds. (d, m) \<in> (deps_rel g)\<^sup>*))
      = (\<lambda>m. dirty s m \<or> (\<exists>d \<in> set (a # ds). (d, m) \<in> (deps_rel g)\<^sup>*))"
    by auto
  ultimately show ?case using a by simp
qed

lemma make_dirty_marks:
  assumes fin: "finite (deps_rel g)" and acyc: "acyclic (deps_rel g)"
  shows "depth g n < k \<Longrightarrow>
     make_dirty k g (s::'p state) n
       = Some (s\<lparr>dirty := (\<lambda>m. dirty s m \<or> (n, m) \<in> (deps_rel g)\<^sup>*)\<rparr>)"
proof (induction k arbitrary: s n)
  case 0
  then show ?case by simp
next
  case (Suc k)
  have IH: "\<And>(s::'p state) d. d \<in> set (dependents g n) \<Longrightarrow>
      make_dirty k g s d = Some (s\<lparr>dirty := (\<lambda>m. dirty s m \<or> (d, m) \<in> (deps_rel g)\<^sup>*)\<rparr>)"
  proof -
    fix s :: "'p state" and d assume "d \<in> set (dependents g n)"
    then have "depth g d < depth g n" by (rule depth_less [OF fin acyc])
    with Suc.prems have "depth g d < k" by simp
    then show "make_dirty k g s d = Some (s\<lparr>dirty := (\<lambda>m. dirty s m \<or> (d, m) \<in> (deps_rel g)\<^sup>*)\<rparr>)"
      by (rule Suc.IH)
  qed
  have "(\<lambda>m. ((dirty s)(n := True)) m \<or> (\<exists>d \<in> set (dependents g n). (d, m) \<in> (deps_rel g)\<^sup>*))
      = (\<lambda>m. dirty s m \<or> (n, m) \<in> (deps_rel g)\<^sup>*)"
    by (subst (2) reach_unfold) auto
  then show ?case
    by (simp add: for_each_mark_make_dirty [OF IH])
qed

subsection \<open>update returns, and computes nothing twice\<close>

lemma for_each_returns:
  assumes "\<And>s d. d \<in> set ds \<Longrightarrow> f s d \<noteq> None"
  shows "for_each f ds s \<noteq> None"
  using assms
proof (induction ds arbitrary: s)
  case Nil
  show ?case by simp
next
  case (Cons a ds)
  have "f s a \<noteq> None" by (rule Cons.prems) simp
  then obtain out where out: "f s a = Some out" by blast
  show ?case
  proof (cases out)
    case (Returned s')
    have "for_each f ds s' \<noteq> None"
      by (rule Cons.IH) (rule Cons.prems, simp)
    with out Returned show ?thesis by simp
  next
    case (Raised e s')
    with out show ?thesis by simp
  qed
qed

lemma update_returns:
  assumes fin: "finite (deps_rel g)" and acyc: "acyclic (deps_rel g)"
  shows "depth g n < k \<Longrightarrow> update k g calc s n \<noteq> None"
proof (induction k arbitrary: s n)
  case 0
  then show ?case by simp
next
  case (Suc k)
  have IH: "\<And>s d. d \<in> set (dependents g n) \<Longrightarrow> update k g calc s d \<noteq> None"
  proof -
    fix s :: "'a state" and d assume "d \<in> set (dependents g n)"
    then have "depth g d < depth g n" by (rule depth_less [OF fin acyc])
    with Suc.prems have "depth g d < k" by simp
    then show "update k g calc s d \<noteq> None" by (rule Suc.IH)
  qed
  show ?case
    using for_each_returns [of "dependents g n" "update k g calc", OF IH]
    by (simp add: Let_def split: outcome.splits)
qed

lemma progress_refl: "progress g N s s"
  unfolding progress_def by simp

lemma progress_dirty: "progress g N s s' \<Longrightarrow> dirty s' m \<Longrightarrow> dirty s m"
  unfolding progress_def by (elim conjE allE [of _ m]) (erule mp)

lemma progress_count:
  "progress g N s s' \<Longrightarrow>
     count_list (computed s') m
       = count_list (computed s) m + (if dirty s m \<and> \<not> dirty s' m then 1 else 0)"
  unfolding progress_def by (elim conjE allE [of _ m])

lemma progress_reach:
  "progress g N s s' \<Longrightarrow> dirty s m \<Longrightarrow> \<not> dirty s' m \<Longrightarrow> \<exists>n \<in> N. (n, m) \<in> (deps_rel g)\<^sup>*"
  unfolding progress_def by (elim conjE allE [of _ m]) (erule mp, erule conjI)

lemma progress_attributes: "progress g N s s' \<Longrightarrow> attributes s' = attributes s"
  unfolding progress_def by (elim conjE)

lemma progressI:
  assumes "\<And>m. dirty s' m \<Longrightarrow> dirty s m"
    and "\<And>m. count_list (computed s') m
               = count_list (computed s) m + (if dirty s m \<and> \<not> dirty s' m then 1 else 0)"
    and "\<And>m. dirty s m \<Longrightarrow> \<not> dirty s' m \<Longrightarrow> \<exists>n \<in> N. (n, m) \<in> (deps_rel g)\<^sup>*"
    and "attributes s' = attributes s"
  shows "progress g N s s'"
  unfolding progress_def
proof (intro conjI allI impI)
  fix m assume "dirty s' m" then show "dirty s m" by (rule assms(1))
next
  fix m show "count_list (computed s') m
               = count_list (computed s) m + (if dirty s m \<and> \<not> dirty s' m then 1 else 0)"
    by (rule assms(2))
next
  fix m assume "dirty s m \<and> \<not> dirty s' m"
  then show "\<exists>n \<in> N. (n, m) \<in> (deps_rel g)\<^sup>*" using assms(3) by blast
next
  show "attributes s' = attributes s" by (rule assms(4))
qed

lemma progress_trans:
  assumes a: "progress g N s s1" and b: "progress g N' s1 s2"
  shows "progress g (N \<union> N') s s2"
proof (rule progressI)
  fix m assume "dirty s2 m"
  then have "dirty s1 m" by (rule progress_dirty [OF b])
  then show "dirty s m" by (rule progress_dirty [OF a])
next
  fix m
  have i: "dirty s2 m \<longrightarrow> dirty s1 m" and j: "dirty s1 m \<longrightarrow> dirty s m"
    using progress_dirty [OF b, of m] progress_dirty [OF a, of m] by blast+
  show "count_list (computed s2) m
               = count_list (computed s) m + (if dirty s m \<and> \<not> dirty s2 m then 1 else 0)"
    unfolding progress_count [OF b, of m] progress_count [OF a, of m]
    using i j by (cases "dirty s m"; cases "dirty s1 m"; cases "dirty s2 m") simp_all
next
  fix m assume h: "dirty s m" "\<not> dirty s2 m"
  show "\<exists>n \<in> N \<union> N'. (n, m) \<in> (deps_rel g)\<^sup>*"
  proof (cases "dirty s1 m")
    case True
    with h progress_reach [OF b, of m] show ?thesis by blast
  next
    case False
    with h progress_reach [OF a, of m] show ?thesis by blast
  qed
next
  show "attributes s2 = attributes s"
    using progress_attributes [OF a] progress_attributes [OF b] by simp
qed

lemma progress_widen:
  assumes a: "progress g N s s'" and w: "\<And>n. n \<in> N \<Longrightarrow> \<exists>n' \<in> N'. (n', n) \<in> (deps_rel g)\<^sup>*"
  shows "progress g N' s s'"
proof (rule progressI)
  fix m assume "dirty s' m" then show "dirty s m" by (rule progress_dirty [OF a])
next
  fix m show "count_list (computed s') m
               = count_list (computed s) m + (if dirty s m \<and> \<not> dirty s' m then 1 else 0)"
    by (rule progress_count [OF a])
next
  fix m assume "dirty s m" "\<not> dirty s' m"
  then obtain n where n: "n \<in> N" "(n, m) \<in> (deps_rel g)\<^sup>*"
    using progress_reach [OF a] by blast
  from w [OF n(1)] obtain n' where n': "n' \<in> N'" "(n', n) \<in> (deps_rel g)\<^sup>*" by blast
  from n'(2) n(2) have "(n', m) \<in> (deps_rel g)\<^sup>*" by (rule rtrancl_trans)
  with n'(1) show "\<exists>n \<in> N'. (n, m) \<in> (deps_rel g)\<^sup>*" by blast
next
  show "attributes s' = attributes s" by (rule progress_attributes [OF a])
qed

lemma progress_step:
  assumes "dirty s n"
  shows "progress g {n} s
           (s\<lparr>dirty := (dirty s)(n := False), computed := computed s @ [n], payload := x\<rparr>)"
proof (rule progressI)
  fix m
  show "count_list (computed (s\<lparr>dirty := (dirty s)(n := False), computed := computed s @ [n],
           payload := x\<rparr>)) m
        = count_list (computed s) m
          + (if dirty s m \<and> \<not> dirty (s\<lparr>dirty := (dirty s)(n := False),
                 computed := computed s @ [n], payload := x\<rparr>) m then 1 else 0)"
    using assms by auto
qed (use assms in \<open>auto split: if_splits\<close>)

lemma for_each_progress:
  assumes "\<And>s d out. d \<in> set ds \<Longrightarrow> f s d = Some out \<Longrightarrow> progress g {d} s (outcome_state out)"
  shows "for_each f ds s = Some out \<Longrightarrow> progress g (set ds) s (outcome_state out)"
  using assms
proof (induction ds arbitrary: s)
  case Nil
  then have "outcome_state out = s" by auto
  then show ?case by (simp add: progress_refl)
next
  case (Cons a ds)
  show ?case
  proof (cases "f s a")
    case None
    with Cons.prems(1) show ?thesis by simp
  next
    case (Some o1)
    have p1: "progress g {a} s (outcome_state o1)"
      by (rule Cons.prems(2) [OF _ Some]) simp
    show ?thesis
    proof (cases o1)
      case (Raised e s1)
      with Some Cons.prems(1) have "out = o1" by simp
      with p1 have "progress g {a} s (outcome_state out)" by simp
      then show ?thesis
      proof (rule progress_widen)
        fix n assume "n \<in> {a}"
        then show "\<exists>n' \<in> set (a # ds). (n', n) \<in> (deps_rel g)\<^sup>*" by simp
      qed
    next
      case (Returned s1)
      with Some Cons.prems(1) have r: "for_each f ds s1 = Some out" by simp
      have "progress g (set ds) s1 (outcome_state out)"
        by (rule Cons.IH [OF r]) (rule Cons.prems(2), simp_all)
      moreover from p1 Returned have "progress g {a} s s1" by simp
      ultimately have "progress g ({a} \<union> set ds) s (outcome_state out)"
        by (rule progress_trans [rotated])
      then show ?thesis by simp
    qed
  qed
qed

lemma update_progress:
  "update k g calc s n = Some out \<Longrightarrow> progress g {n} s (outcome_state out)"
proof (induction k arbitrary: s n out)
  case 0
  then show ?case by simp
next
  case (Suc k)
  show ?case
  proof (cases "dirty s n \<and> \<not> list_ex (dirty s) (precedents g n)")
    case False
    with Suc.prems have "outcome_state out = s"
      by (auto split: if_splits)
    then show ?thesis by (simp add: progress_refl)
  next
    case True
    define s1 where "s1 = s\<lparr>dirty := (dirty s)(n := False), computed := computed s @ [n]\<rparr>"
    show ?thesis
    proof (cases "calc n (attributes s1 n) (payload s1)")
      case (Raised e x)
      with True Suc.prems have "outcome_state out = s1\<lparr>payload := x\<rparr>"
        by (auto simp: s1_def Let_def)
      with True show ?thesis
        using progress_step [of s n g x] by (simp add: s1_def)
    next
      case (Returned x)
      with True Suc.prems have
        r: "for_each (update k g calc) (dependents g n) (s1\<lparr>payload := x\<rparr>) = Some out"
        by (auto simp: s1_def Let_def)
      have p1: "progress g {n} s (s1\<lparr>payload := x\<rparr>)"
        using True progress_step [of s n g x] by (simp add: s1_def)
      have "progress g (set (dependents g n)) (s1\<lparr>payload := x\<rparr>) (outcome_state out)"
        by (rule for_each_progress [OF _ r]) (rule Suc.IH)
      then have "progress g {n} (s1\<lparr>payload := x\<rparr>) (outcome_state out)"
      proof (rule progress_widen)
        fix d assume "d \<in> set (dependents g n)"
        then have "(n, d) \<in> (deps_rel g)\<^sup>*" by (auto simp: deps_rel_def)
        then show "\<exists>n' \<in> {n}. (n', d) \<in> (deps_rel g)\<^sup>*" by simp
      qed
      with p1 have "progress g ({n} \<union> {n}) s (outcome_state out)"
        by (rule progress_trans)
      then show ?thesis by simp
    qed
  qed
qed

subsection \<open>update from the root misses nothing\<close>

lemma settledI:
  assumes "\<And>m d. m \<in> D \<Longrightarrow> d \<in> set (dependents g m) \<Longrightarrow> \<not> dirty s m \<Longrightarrow> d \<notin> Y
             \<Longrightarrow> \<not> dirty s d \<or> list_ex (dirty s) (precedents g d)"
  shows "settled g D s Y"
  unfolding settled_def using assms by blast

lemma settledD:
  assumes "settled g D s Y" and "m \<in> D" and "d \<in> set (dependents g m)" and "\<not> dirty s m"
    and "d \<notin> Y"
  shows "\<not> dirty s d \<or> list_ex (dirty s) (precedents g d)"
  using assms unfolding settled_def by blast

lemma settled_blocked:
  assumes st: "settled g D s (insert n Y)"
    and blocked: "list_ex (dirty s) (precedents g n)"
  shows "settled g D s Y"
proof (rule settledI)
  fix m d
  assume h: "m \<in> D" "d \<in> set (dependents g m)" "\<not> dirty s m" "d \<notin> Y"
  show "\<not> dirty s d \<or> list_ex (dirty s) (precedents g d)"
  proof (cases "d = n")
    case True
    with blocked show ?thesis by simp
  next
    case False
    with h have "d \<notin> insert n Y" by simp
    from settledD [OF st h(1) h(2) h(3) this] show ?thesis .
  qed
qed

lemma settled_cleared:
  assumes link: "\<And>d p. d \<in> D \<Longrightarrow> p \<in> set (precedents g d) \<Longrightarrow> d \<in> set (dependents g p)"
    and closed: "\<And>m d. m \<in> D \<Longrightarrow> d \<in> set (dependents g m) \<Longrightarrow> d \<in> D"
    and st: "settled g D s (insert n Y)"
    and d1: "dirty s1 = (dirty s)(n := False)"
  shows "settled g D s1 (set (dependents g n) \<union> Y)"
proof (rule settledI)
  fix m d
  assume h: "m \<in> D" "d \<in> set (dependents g m)" "\<not> dirty s1 m"
    "d \<notin> set (dependents g n) \<union> Y"
  show "\<not> dirty s1 d \<or> list_ex (dirty s1) (precedents g d)"
  proof (cases "d = n")
    case True
    then show ?thesis by (simp add: d1)
  next
    case False
    from h(2) h(4) have mn: "m \<noteq> n" by auto
    with h(3) have fm: "\<not> dirty s m" by (simp add: d1)
    from False h(4) have "d \<notin> insert n Y" by simp
    from settledD [OF st h(1) h(2) fm this]
    show ?thesis
    proof
      assume "\<not> dirty s d"
      then show ?thesis by (simp add: d1)
    next
      assume "list_ex (dirty s) (precedents g d)"
      then obtain p where p: "p \<in> set (precedents g d)" "dirty s p"
        by (auto simp: list_ex_iff)
      from closed [OF h(1) h(2)] have "d \<in> D" .
      from link [OF this p(1)] have "d \<in> set (dependents g p)" .
      with h(4) have "p \<noteq> n" by auto
      with p(2) have "dirty s1 p" by (simp add: d1)
      with p(1) show ?thesis by (auto simp: list_ex_iff)
    qed
  qed
qed

lemma settled_payload:
  "settled g D (s\<lparr>payload := x\<rparr>) Y = settled g D s Y"
  by (simp add: settled_def)

lemma for_each_settled:
  assumes step: "\<And>(s::'p state) d s' Y. d \<in> set ds \<Longrightarrow> settled g D s (insert d Y)
      \<Longrightarrow> f s d = Some (Returned s') \<Longrightarrow> settled g D s' Y"
  shows "settled g D (s::'p state) (set ds \<union> Y) \<Longrightarrow> for_each f ds s = Some (Returned s')
           \<Longrightarrow> settled g D s' Y"
  using step
proof (induction ds arbitrary: s)
  case Nil
  then show ?case by simp
next
  case (Cons a ds)
  from Cons.prems(2) obtain s1 where a: "f s a = Some (Returned s1)"
    and r: "for_each f ds s1 = Some (Returned s')"
    by (auto split: option.splits outcome.splits)
  from Cons.prems(1) have "settled g D s (insert a (set ds \<union> Y))" by simp
  from Cons.prems(3) [OF _ this a] have "settled g D s1 (set ds \<union> Y)" by simp
  from this r show ?case
    by (rule Cons.IH) (rule Cons.prems(3), simp_all)
qed

lemma update_settled:
  assumes link: "\<And>d p. d \<in> D \<Longrightarrow> p \<in> set (precedents g d) \<Longrightarrow> d \<in> set (dependents g p)"
    and closed: "\<And>m d. m \<in> D \<Longrightarrow> d \<in> set (dependents g m) \<Longrightarrow> d \<in> D"
  shows "n \<in> D \<Longrightarrow> settled g D (s::'p state) (insert n Y)
           \<Longrightarrow> update k g calc s n = Some (Returned s') \<Longrightarrow> settled g D s' Y"
proof (induction k arbitrary: s n s' Y)
  case 0
  then show ?case by simp
next
  case (Suc k)
  from Suc.prems(3) have dn: "dirty s n"
    by (auto split: if_splits)
  show ?case
  proof (cases "list_ex (dirty s) (precedents g n)")
    case True
    with dn Suc.prems(3) have "s' = s" by simp
    with settled_blocked [OF Suc.prems(2) True] show ?thesis by simp
  next
    case False
    define s1 where "s1 = s\<lparr>dirty := (dirty s)(n := False), computed := computed s @ [n]\<rparr>"
    from dn False Suc.prems(3) obtain x where
      r: "for_each (update k g calc) (dependents g n) (s1\<lparr>payload := x\<rparr>) = Some (Returned s')"
      by (auto simp: s1_def Let_def split: outcome.splits)
    have "dirty s1 = (dirty s)(n := False)" by (simp add: s1_def)
    from settled_cleared [OF link closed Suc.prems(2) this]
    have "settled g D (s1\<lparr>payload := x\<rparr>) (set (dependents g n) \<union> Y)"
      by (simp add: settled_payload)
    from this r show ?thesis
    proof (rule for_each_settled [rotated])
      fix t :: "'p state" and d t' Z
      assume d: "d \<in> set (dependents g n)" and z: "settled g D t (insert d Z)"
        and u: "update k g calc t d = Some (Returned t')"
      from closed [OF Suc.prems(1) d] have "d \<in> D" .
      from this z u show "settled g D t' Z" by (rule Suc.IH)
    qed
  qed
qed

lemma update_clears:
  assumes u: "update k g calc s n = Some (Returned s')"
    and dn: "dirty s n" and free: "\<not> list_ex (dirty s) (precedents g n)"
  shows "\<not> dirty s' n"
proof (cases k)
  case 0
  with u show ?thesis by simp
next
  case (Suc j)
  define s1 where "s1 = s\<lparr>dirty := (dirty s)(n := False), computed := computed s @ [n]\<rparr>"
  from u dn free Suc obtain x where
    r: "for_each (update j g calc) (dependents g n) (s1\<lparr>payload := x\<rparr>) = Some (Returned s')"
    by (auto simp: s1_def Let_def split: outcome.splits)
  have "progress g (set (dependents g n)) (s1\<lparr>payload := x\<rparr>) (outcome_state (Returned s'))"
    by (rule for_each_progress [OF _ r]) (rule update_progress)
  then have "dirty s' n \<Longrightarrow> dirty (s1\<lparr>payload := x\<rparr>) n"
    using progress_dirty by fastforce
  then show ?thesis by (auto simp: s1_def)
qed

lemma settled_all_fresh:
  assumes fin: "finite (deps_rel g)" and acyc: "acyclic (deps_rel g)"
    and link: "\<And>d p. (r, d) \<in> (deps_rel g)\<^sup>* \<Longrightarrow> p \<in> set (precedents g d)
                 \<Longrightarrow> (r, p) \<in> (deps_rel g)\<^sup>* \<and> d \<in> set (dependents g p)"
    and st: "settled g {m. (r, m) \<in> (deps_rel g)\<^sup>*} s {}"
    and root: "\<not> dirty s r"
  shows "(r, n) \<in> (deps_rel g)\<^sup>* \<Longrightarrow> \<not> dirty s n"
proof (induction "depth g r - depth g n" arbitrary: n rule: less_induct)
  case less
  show ?case
  proof (cases "n = r")
    case True
    with root show ?thesis by simp
  next
    case False
    with less.prems obtain m where m: "(r, m) \<in> (deps_rel g)\<^sup>*" "(m, n) \<in> deps_rel g"
      by (auto elim: rtranclE)
    from m(2) have nm: "n \<in> set (dependents g m)" by (simp add: deps_rel_def)
    have up: "\<And>q. (r, q) \<in> (deps_rel g)\<^sup>* \<Longrightarrow> n \<in> set (dependents g q) \<Longrightarrow> \<not> dirty s q"
    proof -
      fix q assume q: "(r, q) \<in> (deps_rel g)\<^sup>*" "n \<in> set (dependents g q)"
      have "depth g n < depth g q" by (rule depth_less [OF fin acyc q(2)])
      moreover have "depth g q \<le> depth g r" by (rule depth_le_reach [OF fin q(1)])
      ultimately have "depth g r - depth g q < depth g r - depth g n" by simp
      from less.hyps [OF this q(1)] show "\<not> dirty s q" .
    qed
    from up [OF m(1) nm] have fm: "\<not> dirty s m" .
    from m(1) have "m \<in> {m. (r, m) \<in> (deps_rel g)\<^sup>*}" by simp
    from settledD [OF st this nm fm] have "\<not> dirty s n \<or> list_ex (dirty s) (precedents g n)"
      by simp
    then show ?thesis
    proof
      assume "\<not> dirty s n" then show ?thesis .
    next
      assume "list_ex (dirty s) (precedents g n)"
      then obtain p where p: "p \<in> set (precedents g n)" "dirty s p"
        by (auto simp: list_ex_iff)
      from link [OF less.prems p(1)] have "(r, p) \<in> (deps_rel g)\<^sup>*" "n \<in> set (dependents g p)"
        by simp_all
      from up [OF this] p(2) show ?thesis by simp
    qed
  qed
qed

lemma root_has_no_precedents:
  assumes acyc: "acyclic (deps_rel g)"
    and link: "\<forall>m p. (r, m) \<in> (deps_rel g)\<^sup>* \<and> p \<in> set (precedents g m)
                 \<longrightarrow> (r, p) \<in> (deps_rel g)\<^sup>* \<and> m \<in> set (dependents g p)"
  shows "\<not> list_ex (dirty s) (precedents g r)"
proof
  assume "list_ex (dirty s) (precedents g r)"
  then obtain p where p: "p \<in> set (precedents g r)" by (auto simp: list_ex_iff)
  have "(r, r) \<in> (deps_rel g)\<^sup>*" by simp
  with link p have "(r, p) \<in> (deps_rel g)\<^sup>*" and "r \<in> set (dependents g p)" by blast+
  then have "(r, p) \<in> (deps_rel g)\<^sup>*" and "(p, r) \<in> deps_rel g" by (simp_all add: deps_rel_def)
  then have "(r, r) \<in> (deps_rel g)\<^sup>+" by (rule rtrancl_into_trancl1)
  with acyc show False by (simp add: acyclic_def)
qed

lemma update_from_root:
  fixes t :: "'p state"
  assumes fin: "finite (deps_rel g)" and acyc: "acyclic (deps_rel g)"
    and link: "\<forall>m p. (r, m) \<in> (deps_rel g)\<^sup>* \<and> p \<in> set (precedents g m)
                 \<longrightarrow> (r, p) \<in> (deps_rel g)\<^sup>* \<and> m \<in> set (dependents g p)"
    and stale: "\<forall>m. (r, m) \<in> (deps_rel g)\<^sup>* \<longrightarrow> dirty t m"
    and u: "update k g calc t r = Some (Returned t')"
  shows "(r, m) \<in> (deps_rel g)\<^sup>* \<Longrightarrow> \<not> dirty t' m"
proof -
  let ?D = "{m. (r, m) \<in> (deps_rel g)\<^sup>*}"
  have l1: "\<And>d p. d \<in> ?D \<Longrightarrow> p \<in> set (precedents g d) \<Longrightarrow> d \<in> set (dependents g p)"
    using link by blast
  have l2: "\<And>m d. m \<in> ?D \<Longrightarrow> d \<in> set (dependents g m) \<Longrightarrow> d \<in> ?D"
  proof -
    fix m d assume "m \<in> ?D" "d \<in> set (dependents g m)"
    then have "(r, m) \<in> (deps_rel g)\<^sup>*" "(m, d) \<in> deps_rel g" by (simp_all add: deps_rel_def)
    then have "(r, d) \<in> (deps_rel g)\<^sup>*" by (rule rtrancl_into_rtrancl)
    then show "d \<in> ?D" by simp
  qed
  have rD: "r \<in> ?D" by simp
  have s0: "settled g ?D t (insert r {})"
  proof (rule settledI)
    fix m d assume "m \<in> ?D" "\<not> dirty t m"
    with stale show "\<not> dirty t d \<or> list_ex (dirty t) (precedents g d)" by blast
  qed
  have st: "settled g ?D t' {}"
    by (rule update_settled [OF l1 l2 rD s0 u])
  from stale have dr: "dirty t r" by simp
  have root: "\<not> dirty t' r"
    by (rule update_clears [OF u dr root_has_no_precedents [OF acyc link]])
  have l3: "\<And>d p. (r, d) \<in> (deps_rel g)\<^sup>* \<Longrightarrow> p \<in> set (precedents g d)
                 \<Longrightarrow> (r, p) \<in> (deps_rel g)\<^sup>* \<and> d \<in> set (dependents g p)"
    using link by blast
  show "(r, m) \<in> (deps_rel g)\<^sup>* \<Longrightarrow> \<not> dirty t' m"
    by (rule settled_all_fresh [OF fin acyc l3 st root])
qed

lemma acyclic_increasing:
  fixes R :: "(nat \<times> nat) set"
  assumes "\<And>a b. (a, b) \<in> R \<Longrightarrow> a < b"
  shows "acyclic R"
proof -
  have "R \<subseteq> less_than" using assms by auto
  moreover have "acyclic less_than" by (rule wf_acyclic) (rule wf_less_than)
  ultimately show ?thesis by (rule acyclic_subset [rotated])
qed

lemma reach_increasing:
  fixes R :: "(nat \<times> nat) set"
  assumes "\<And>a b. (a, b) \<in> R \<Longrightarrow> a < b"
  shows "(a, b) \<in> R\<^sup>* \<Longrightarrow> a \<le> b"
proof (induction rule: rtrancl_induct)
  case base
  show ?case by simp
next
  case (step y z)
  from assms [OF step.hyps(2)] step.IH show ?case by simp
qed

lemma deps_rel_diamond: "deps_rel diamond = {(0, 1), (0, 2), (1, 3), (2, 3)}"
  by (auto simp: deps_rel_def diamond_def split: if_splits)

lemma deps_rel_shortcut: "deps_rel shortcut = {(0, 1), (0, 2), (0, 3), (1, 2)}"
  by (auto simp: deps_rel_def shortcut_def split: if_splits)

lemma diamond_link:
  "\<forall>m p. (0, m) \<in> (deps_rel diamond)\<^sup>* \<and> p \<in> set (precedents diamond m)
      \<longrightarrow> (0, p) \<in> (deps_rel diamond)\<^sup>* \<and> m \<in> set (dependents diamond p)"
proof (intro allI impI)
  fix m p
  assume h: "(0, m) \<in> (deps_rel diamond)\<^sup>* \<and> p \<in> set (precedents diamond m)"
  have e: "(0, 1) \<in> (deps_rel diamond)\<^sup>*" "(0, 2) \<in> (deps_rel diamond)\<^sup>*"
    by (rule r_into_rtrancl, simp add: deps_rel_diamond)+
  from h have "p \<in> set (precedents diamond m)" by simp
  then have "(m = 1 \<and> p = 0) \<or> (m = 2 \<and> p = 0) \<or> (m = 3 \<and> (p = 1 \<or> p = 2))"
    by (auto simp: diamond_def split: if_splits)
  with e show "(0, p) \<in> (deps_rel diamond)\<^sup>* \<and> m \<in> set (dependents diamond p)"
    by (auto simp: diamond_def)
qed

lemma update_diamond:
  "\<exists>t'. update 5 diamond calc_pass fresh_built 0 = Some (Returned t')"
  by (simp add: eval_nat_numeral diamond_def fresh_built_def calc_pass_def)

text \<open>
  What the code guarantees.  Let the network be finite and acyclic, and let the recursion
  depth exceed the number of its edges.

  First part: \<open>make_dirty\<close> on an object \<open>n\<close> returns, and afterwards an object is dirty exactly
  when it was dirty before or is \<open>n\<close> or a transitive dependent of \<open>n\<close>, whatever the flags
  were; nothing is computed.  A successful \<open>Component.__setitem__\<close> leaves the same flags.

  Second part: let \<open>r\<close> be a root such that every precedent of \<open>r\<close> or of a transitive
  dependent of \<open>r\<close> is itself \<open>r\<close> or a transitive dependent of \<open>r\<close> and lists the object as
  its dependent, and let \<open>r\<close> and all its transitive dependents be dirty (as they are after
  \<open>make_dirty\<close> on \<open>r\<close>, with which \<open>Engine.update\<close> starts).  Then \<open>update\<close> on \<open>r\<close> comes
  back, and no object has been computed more than once.  If it comes back without an
  exception, \<open>r\<close> and every transitive dependent of \<open>r\<close> is clean and has been computed
  exactly once, and every other object has its flag and its count unchanged.
\<close>

theorem make_dirty_then_update:
  fixes s :: "'p state"
  assumes fin: "finite (deps_rel g)" and acyc: "acyclic (deps_rel g)"
    and fuel: "card (deps_rel g) < k"
    and link: "\<forall>m p. (r, m) \<in> (deps_rel g)\<^sup>* \<and> p \<in> set (precedents g m)
                 \<longrightarrow> (r, p) \<in> (deps_rel g)\<^sup>* \<and> m \<in> set (dependents g p)"
  shows "(\<exists>s1. make_dirty k g s n = Some s1
            \<and> (\<forall>m. dirty s1 m = (dirty s m \<or> (n, m) \<in> (deps_rel g)\<^sup>*))
            \<and> computed s1 = computed s
            \<and> (\<forall>name v. attributes s n name \<noteq> None \<longrightarrow>
                  setitem k g s n name v
                    = Some (Returned (s1\<lparr>attributes :=
                         (attributes s1)(n := (attributes s1 n)(name \<mapsto> v))\<rparr>))))
       \<and> (\<forall>t::'p state. (\<forall>m. (r, m) \<in> (deps_rel g)\<^sup>* \<longrightarrow> dirty t m) \<longrightarrow>
            (\<exists>out. update k g calc t r = Some out
               \<and> (\<forall>m. count_list (computed (outcome_state out)) m
                         \<le> count_list (computed t) m + 1)
               \<and> (outcome_error out = None \<longrightarrow>
                    (\<forall>m. if (r, m) \<in> (deps_rel g)\<^sup>*
                         then \<not> dirty (outcome_state out) m
                              \<and> count_list (computed (outcome_state out)) m
                                  = count_list (computed t) m + 1
                         else dirty (outcome_state out) m = dirty t m
                              \<and> count_list (computed (outcome_state out)) m
                                  = count_list (computed t) m))))"
proof (intro conjI allI impI)
  have dn: "depth g n < k"
    using depth_le_card [OF fin, of n] fuel by simp
  let ?s1 = "s\<lparr>dirty := (\<lambda>m. dirty s m \<or> (n, m) \<in> (deps_rel g)\<^sup>*)\<rparr>"
  have md: "make_dirty k g s n = Some ?s1"
    by (rule make_dirty_marks [OF fin acyc dn])
  have "\<forall>name v. attributes s n name \<noteq> None \<longrightarrow>
                  setitem k g s n name v
                    = Some (Returned (?s1\<lparr>attributes :=
                         (attributes ?s1)(n := (attributes ?s1 n)(name \<mapsto> v))\<rparr>))"
    by (simp add: setitem_def md)
  with md show "\<exists>s1. make_dirty k g s n = Some s1
            \<and> (\<forall>m. dirty s1 m = (dirty s m \<or> (n, m) \<in> (deps_rel g)\<^sup>*))
            \<and> computed s1 = computed s
            \<and> (\<forall>name v. attributes s n name \<noteq> None \<longrightarrow>
                  setitem k g s n name v
                    = Some (Returned (s1\<lparr>attributes :=
                         (attributes s1)(n := (attributes s1 n)(name \<mapsto> v))\<rparr>)))"
    by (intro exI [of _ ?s1]) simp
next
  fix t :: "'p state"
  assume stale: "\<forall>m. (r, m) \<in> (deps_rel g)\<^sup>* \<longrightarrow> dirty t m"
  have "depth g r < k"
    using depth_le_card [OF fin, of r] fuel by simp
  then have "update k g calc t r \<noteq> None"
    by (rule update_returns [OF fin acyc])
  then obtain out where out: "update k g calc t r = Some out" by blast
  have pr: "progress g {r} t (outcome_state out)"
    by (rule update_progress [OF out])
  have le: "\<forall>m. count_list (computed (outcome_state out)) m \<le> count_list (computed t) m + 1"
    by (simp add: progress_count [OF pr])
  have ok: "outcome_error out = None \<longrightarrow>
                    (\<forall>m. if (r, m) \<in> (deps_rel g)\<^sup>*
                         then \<not> dirty (outcome_state out) m
                              \<and> count_list (computed (outcome_state out)) m
                                  = count_list (computed t) m + 1
                         else dirty (outcome_state out) m = dirty t m
                              \<and> count_list (computed (outcome_state out)) m
                                  = count_list (computed t) m)"
  proof (intro impI allI)
    fix m
    assume "outcome_error out = None"
    then obtain t' where t': "out = Returned t'" by (cases out) simp_all
    with out have u: "update k g calc t r = Some (Returned t')" by simp
    from pr t' have pr': "progress g {r} t t'" by simp
    show "if (r, m) \<in> (deps_rel g)\<^sup>*
          then \<not> dirty (outcome_state out) m
               \<and> count_list (computed (outcome_state out)) m = count_list (computed t) m + 1
          else dirty (outcome_state out) m = dirty t m
               \<and> count_list (computed (outcome_state out)) m = count_list (computed t) m"
    proof (cases "(r, m) \<in> (deps_rel g)\<^sup>*")
      case True
      then have f: "\<not> dirty t' m"
        by (rule update_from_root [OF fin acyc link stale u])
      from True stale have "dirty t m" by simp
      with f True t' show ?thesis
        by (simp add: progress_count [OF pr'])
    next
      case False
      have same: "dirty t' m = dirty t m"
      proof (cases "dirty t m")
        case True
        show ?thesis
        proof (rule ccontr)
          assume "dirty t' m \<noteq> dirty t m"
          with True have "\<not> dirty t' m" by simp
          from progress_reach [OF pr' True this] have "(r, m) \<in> (deps_rel g)\<^sup>*" by simp
          with False show False by simp
        qed
      next
        case False
        with progress_dirty [OF pr', of m] show ?thesis by blast
      qed
      with False t' show ?thesis
        by (simp add: progress_count [OF pr'])
    qed
  qed
  from conjI [OF out conjI [OF le ok]] show "\<exists>out. update k g calc t r = Some out
               \<and> (\<forall>m. count_list (computed (outcome_state out)) m
                         \<le> count_list (computed t) m + 1)
               \<and> (outcome_error out = None \<longrightarrow>
                    (\<forall>m. if (r, m) \<in> (deps_rel g)\<^sup>*
                         then \<not> dirty (outcome_state out) m
                              \<and> count_list (computed (outcome_state out)) m
                                  = count_list (computed t) m + 1
                         else dirty (outcome_state out) m = dirty t m
                              \<and> count_list (computed (outcome_state out)) m
                                  = count_list (computed t) m))"
    by (rule exI)
qed

theorem make_dirty_then_update_witness:
  "finite (deps_rel diamond) \<and> acyclic (deps_rel diamond) \<and> card (deps_rel diamond) < 5 \<and>
   (\<exists>s1. make_dirty 5 diamond all_clean 1 = Some s1 \<and> dirty s1 1 \<and> dirty s1 3 \<and> \<not> dirty s1 0) \<and>
   (\<exists>out. update 5 diamond calc_pass fresh_built 0 = Some out \<and> outcome_error out = None \<and>
      \<not> dirty (outcome_state out) 3 \<and> count_list (computed (outcome_state out)) 3 = 1)"
proof -
  have inc: "\<And>a b. (a, b) \<in> deps_rel diamond \<Longrightarrow> a < b"
    by (auto simp: deps_rel_diamond)
  have fin: "finite (deps_rel diamond)"
    by (simp add: deps_rel_diamond)
  have acyc: "acyclic (deps_rel diamond)"
    by (rule acyclic_increasing [OF inc])
  have fuel: "card (deps_rel diamond) < 5"
    by (simp add: deps_rel_diamond)
  note r = make_dirty_then_update [OF fin acyc fuel diamond_link, of all_clean 1 calc_pass]
  from r have "\<exists>s1. make_dirty 5 diamond all_clean 1 = Some s1
            \<and> (\<forall>m. dirty s1 m = (dirty all_clean m \<or> (1, m) \<in> (deps_rel diamond)\<^sup>*))
            \<and> computed s1 = computed all_clean
            \<and> (\<forall>name v. attributes all_clean 1 name \<noteq> None \<longrightarrow>
                  setitem 5 diamond all_clean 1 name v
                    = Some (Returned (s1\<lparr>attributes :=
                         (attributes s1)(1 := (attributes s1 1)(name \<mapsto> v))\<rparr>)))"
    by (rule conjunct1)
  then obtain s1 where S: "make_dirty 5 diamond all_clean 1 = Some s1
            \<and> (\<forall>m. dirty s1 m = (dirty all_clean m \<or> (1, m) \<in> (deps_rel diamond)\<^sup>*))
            \<and> computed s1 = computed all_clean
            \<and> (\<forall>name v. attributes all_clean 1 name \<noteq> None \<longrightarrow>
                  setitem 5 diamond all_clean 1 name v
                    = Some (Returned (s1\<lparr>attributes :=
                         (attributes s1)(1 := (attributes s1 1)(name \<mapsto> v))\<rparr>)))" ..
  from S have s1: "make_dirty 5 diamond all_clean 1 = Some s1"
    by (rule conjunct1)
  from S have d1: "\<forall>m. dirty s1 m = (dirty all_clean m \<or> (1, m) \<in> (deps_rel diamond)\<^sup>*)"
    by (rule conjunct1 [OF conjunct2])
  have "(1, 3) \<in> (deps_rel diamond)\<^sup>*"
    by (rule r_into_rtrancl) (simp add: deps_rel_diamond)
  moreover have "(1, 0) \<notin> (deps_rel diamond)\<^sup>*"
    using reach_increasing [of "deps_rel diamond" 1 0, OF inc] by auto
  moreover have "(1, 1) \<in> (deps_rel diamond)\<^sup>*" by simp
  moreover have "\<And>m. dirty all_clean m = False" by (simp add: all_clean_def)
  ultimately have A: "dirty s1 1 \<and> dirty s1 3 \<and> \<not> dirty s1 0"
    unfolding d1 [rule_format] by simp
  have stale: "\<forall>m. (0, m) \<in> (deps_rel diamond)\<^sup>* \<longrightarrow> dirty fresh_built m"
    by (simp add: fresh_built_def)
  from r have "\<forall>t::unit state. (\<forall>m. (0, m) \<in> (deps_rel diamond)\<^sup>* \<longrightarrow> dirty t m) \<longrightarrow>
            (\<exists>out. update 5 diamond calc_pass t 0 = Some out
               \<and> (\<forall>m. count_list (computed (outcome_state out)) m
                         \<le> count_list (computed t) m + 1)
               \<and> (outcome_error out = None \<longrightarrow>
                    (\<forall>m. if (0, m) \<in> (deps_rel diamond)\<^sup>*
                         then \<not> dirty (outcome_state out) m
                              \<and> count_list (computed (outcome_state out)) m
                                  = count_list (computed t) m + 1
                         else dirty (outcome_state out) m = dirty t m
                              \<and> count_list (computed (outcome_state out)) m
                                  = count_list (computed t) m)))"
    by (rule conjunct2)
  then have "(\<forall>m. (0, m) \<in> (deps_rel diamond)\<^sup>* \<longrightarrow> dirty fresh_built m) \<longrightarrow>
            (\<exists>out. update 5 diamond calc_pass fresh_built 0 = Some out
               \<and> (\<forall>m. count_list (computed (outcome_state out)) m
                         \<le> count_list (computed fresh_built) m + 1)
               \<and> (outcome_error out = None \<longrightarrow>
                    (\<forall>m. if (0, m) \<in> (deps_rel diamond)\<^sup>*
                         then \<not> dirty (outcome_state out) m
                              \<and> count_list (computed (outcome_state out)) m
                                  = count_list (computed fresh_built) m + 1
                         else dirty (outcome_state out) m = dirty fresh_built m
                              \<and> count_list (computed (outcome_state out)) m
                                  = count_list (computed fresh_built) m)))"
    by (rule spec)
  from this stale have "\<exists>out. update 5 diamond calc_pass fresh_built 0 = Some out
               \<and> (\<forall>m. count_list (computed (outcome_state out)) m
                         \<le> count_list (computed fresh_built) m + 1)
               \<and> (outcome_error out = None \<longrightarrow>
                    (\<forall>m. if (0, m) \<in> (deps_rel diamond)\<^sup>*
                         then \<not> dirty (outcome_state out) m
                              \<and> count_list (computed (outcome_state out)) m
                                  = count_list (computed fresh_built) m + 1
                         else dirty (outcome_state out) m = dirty fresh_built m
                              \<and> count_list (computed (outcome_state out)) m
                                  = count_list (computed fresh_built) m))"
    by (rule mp)
  then obtain out where O: "update 5 diamond calc_pass fresh_built 0 = Some out
               \<and> (\<forall>m. count_list (computed (outcome_state out)) m
                         \<le> count_list (computed fresh_built) m + 1)
               \<and> (outcome_error out = None \<longrightarrow>
                    (\<forall>m. if (0, m) \<in> (deps_rel diamond)\<^sup>*
                         then \<not> dirty (outcome_state out) m
                              \<and> count_list (computed (outcome_state out)) m
                                  = count_list (computed fresh_built) m + 1
                         else dirty (outcome_state out) m = dirty fresh_built m
                              \<and> count_list (computed (outcome_state out)) m
                                  = count_list (computed fresh_built) m))" ..
  from O have out: "update 5 diamond calc_pass fresh_built 0 = Some out"
    by (rule conjunct1)
  from O have imp: "outcome_error out = None \<longrightarrow>
                    (\<forall>m. if (0, m) \<in> (deps_rel diamond)\<^sup>*
                         then \<not> dirty (outcome_state out) m
                              \<and> count_list (computed (outcome_state out)) m
                                  = count_list (computed fresh_built) m + 1
                         else dirty (outcome_state out) m = dirty fresh_built m
                              \<and> count_list (computed (outcome_state out)) m
                                  = count_list (computed fresh_built) m)"
    by (rule conjunct2 [OF conjunct2])
  from update_diamond out have ne: "outcome_error out = None" by auto
  have "(0, 1) \<in> deps_rel diamond" "(1, 3) \<in> deps_rel diamond"
    by (simp_all add: deps_rel_diamond)
  then have reach: "(0, 3) \<in> (deps_rel diamond)\<^sup>*"
    by (rule converse_rtrancl_into_rtrancl [OF _ r_into_rtrancl])
  from imp ne have "\<forall>m. if (0, m) \<in> (deps_rel diamond)\<^sup>*
                         then \<not> dirty (outcome_state out) m
                              \<and> count_list (computed (outcome_state out)) m
                                  = count_list (computed fresh_built) m + 1
                         else dirty (outcome_state out) m = dirty fresh_built m
                              \<and> count_list (computed (outcome_state out)) m
                                  = count_list (computed fresh_built) m"
    by (rule mp)
  then have "if (0, 3) \<in> (deps_rel diamond)\<^sup>*
                         then \<not> dirty (outcome_state out) 3
                              \<and> count_list (computed (outcome_state out)) 3
                                  = count_list (computed fresh_built) 3 + 1
                         else dirty (outcome_state out) 3 = dirty fresh_built 3
                              \<and> count_list (computed (outcome_state out)) 3
                                  = count_list (computed fresh_built) 3"
    by (rule spec)
  with reach have "\<not> dirty (outcome_state out) 3
      \<and> count_list (computed (outcome_state out)) 3 = count_list (computed fresh_built) 3 + 1"
    by simp
  then have B: "\<not> dirty (outcome_state out) 3 \<and> count_list (computed (outcome_state out)) 3 = 1"
    by (simp add: fresh_built_def)
  from s1 A have EA: "\<exists>s1. make_dirty 5 diamond all_clean 1 = Some s1 \<and> dirty s1 1 \<and> dirty s1 3
      \<and> \<not> dirty s1 0"
    by (intro exI [of _ s1]) simp
  from out ne B have EB: "\<exists>out. update 5 diamond calc_pass fresh_built 0 = Some out
      \<and> outcome_error out = None \<and> \<not> dirty (outcome_state out) 3
      \<and> count_list (computed (outcome_state out)) 3 = 1"
    by (intro exI [of _ out]) simp
  from fin acyc fuel EA EB show ?thesis by (intro conjI)
qed

text \<open>
  A shaft with two compressors in series, which the docstring of \<open>Shaft\<close> allows: \<open>update\<close>
  on the inlet station computes every object once, the shaft when the second compressor
  calls it; then the loop of the fan calls \<open>update\<close> on the shaft again, and the assertion
  fails.
\<close>

lemma two_compressors_increasing:
  "(a, b) \<in> deps_rel two_compressors \<Longrightarrow> a < b"
  by (auto simp: deps_rel_def two_compressors_def split: if_splits)

lemma update_two_compressors:
  "acyclic (deps_rel two_compressors) \<and>
   map_option (\<lambda>out. (outcome_error out, computed (outcome_state out)))
       (update 12 two_compressors calc_pass fresh_built 0)
     = Some (Some AssertionError, [0, 1, 2, 3, 4, 5, 6, 7, 8, 9])"
proof -
  have "acyclic (deps_rel two_compressors)"
    by (rule acyclic_increasing) (rule two_compressors_increasing)
  moreover have "map_option (\<lambda>out. (outcome_error out, computed (outcome_state out)))
       (update 12 two_compressors calc_pass fresh_built 0)
     = Some (Some AssertionError, [0, 1, 2, 3, 4, 5, 6, 7, 8, 9])"
    by (simp add: eval_nat_numeral two_compressors_def fresh_built_def calc_pass_def)
  ultimately show ?thesis by (rule conjI)
qed

text \<open>
  C1.  The claim is that on every acyclic network \<open>update\<close> driven from the root recomputes
  each stale dependent exactly once and misses none.  The code does not do so on the
  network with a shortcut, which is acyclic and has the single root 0.  All objects are
  dirty, as \<open>make_dirty\<close> on the root leaves them.  \<open>update\<close> on the root computes 0, then 1,
  then 2 (reached through 1, with both its precedents clean); back in the loop of the root,
  \<open>update\<close> is called on 2 again, which is clean by now, and the assertion of \<open>update\<close>
  fails.  The \<open>AssertionError\<close> leaves \<open>update\<close>; object 3, a dependent of the root, is still
  dirty and was never computed.
\<close>

theorem update_shortcut_AssertionError:
  "acyclic (deps_rel shortcut) \<and> 3 \<in> set (dependents shortcut 0) \<and>
   make_dirty 5 shortcut fresh_built 0 = Some fresh_built \<and>
   map_option outcome_error (update 5 shortcut calc_pass fresh_built 0)
     = Some (Some AssertionError) \<and>
   map_option (computed \<circ> outcome_state) (update 5 shortcut calc_pass fresh_built 0)
     = Some [0, 1, 2] \<and>
   map_option (\<lambda>out. dirty (outcome_state out) 3) (update 5 shortcut calc_pass fresh_built 0)
     = Some True \<and>
   count_list [0, 1, 2] (3::nat) = 0"
proof -
  have "acyclic (deps_rel shortcut)"
    by (rule acyclic_increasing) (auto simp: deps_rel_shortcut)
  moreover have "3 \<in> set (dependents shortcut 0)"
    by (simp add: shortcut_def)
  moreover have "make_dirty 5 shortcut fresh_built 0 = Some fresh_built"
    by (simp add: eval_nat_numeral shortcut_def fresh_built_def fun_eq_iff)
  moreover have "map_option outcome_error (update 5 shortcut calc_pass fresh_built 0)
     = Some (Some AssertionError)"
    by (simp add: eval_nat_numeral shortcut_def fresh_built_def calc_pass_def)
  moreover have "map_option (computed \<circ> outcome_state) (update 5 shortcut calc_pass fresh_built 0)
     = Some [0, 1, 2]"
    by (simp add: eval_nat_numeral shortcut_def fresh_built_def calc_pass_def)
  moreover have "map_option (\<lambda>out. dirty (outcome_state out) 3)
      (update 5 shortcut calc_pass fresh_built 0) = Some True"
    by (simp add: eval_nat_numeral shortcut_def fresh_built_def calc_pass_def)
  moreover have "count_list [0, 1, 2] (3::nat) = 0"
    by simp
  ultimately show ?thesis by (intro conjI)
qed

section \<open>Properties of the components\<close>

text \<open>
  C7.  A \<open>Splitter\<close> whose two exits are different stations and whose bypass ratio is not
  negative: \<open>calculate\<close> returns, the core exit carries \<open>w / (BPR + 1)\<close>, the bypass exit
  carries \<open>w * BPR / (BPR + 1)\<close>, the two add up to the inlet mass flow \<open>w\<close>, and both exits
  have the pressure and the temperature of the inlet.
\<close>

theorem Splitter_calculate_flows:
  assumes "attrs ''BPR'' = Some bpr" and "0 \<le> bpr" and "exit0 c \<noteq> exit1 c"
  shows "outcome_error (Splitter_calculate c attrs st) = None \<and>
         stn_w (outcome_state (Splitter_calculate c attrs st) (exit0 c))
           = stn_w (st (spl_inlet c)) / (bpr + 1) \<and>
         stn_w (outcome_state (Splitter_calculate c attrs st) (exit1 c))
           = stn_w (st (spl_inlet c)) * bpr / (bpr + 1) \<and>
         stn_w (outcome_state (Splitter_calculate c attrs st) (exit0 c))
           + stn_w (outcome_state (Splitter_calculate c attrs st) (exit1 c))
           = stn_w (st (spl_inlet c)) \<and>
         stn_p (outcome_state (Splitter_calculate c attrs st) (exit0 c)) = stn_p (st (spl_inlet c)) \<and>
         stn_t (outcome_state (Splitter_calculate c attrs st) (exit0 c)) = stn_t (st (spl_inlet c)) \<and>
         stn_p (outcome_state (Splitter_calculate c attrs st) (exit1 c)) = stn_p (st (spl_inlet c)) \<and>
         stn_t (outcome_state (Splitter_calculate c attrs st) (exit1 c)) = stn_t (st (spl_inlet c))"
proof -
  from assms(2) have nz: "bpr + 1 \<noteq> 0" by simp
  have "stn_w (st (spl_inlet c)) / (bpr + 1) + stn_w (st (spl_inlet c)) * bpr / (bpr + 1)
          = stn_w (st (spl_inlet c)) * (bpr + 1) / (bpr + 1)"
    by (simp add: add_divide_distrib [symmetric] distrib_left)
  also have "\<dots> = stn_w (st (spl_inlet c))"
    using nz by simp
  finally have "stn_w (st (spl_inlet c)) / (bpr + 1) + stn_w (st (spl_inlet c)) * bpr / (bpr + 1)
          = stn_w (st (spl_inlet c))" .
  with assms nz show ?thesis
    by (simp add: Splitter_calculate_def Let_def)
qed

theorem Splitter_calculate_flows_witness:
  "[''BPR'' \<mapsto> 3::real] ''BPR'' = Some 3 \<and> (0::real) \<le> 3 \<and>
   exit0 splitter_012 \<noteq> exit1 splitter_012 \<and>
   outcome_error (Splitter_calculate splitter_012 [''BPR'' \<mapsto> 3] ambient_stations) = None \<and>
   stn_w (outcome_state (Splitter_calculate splitter_012 [''BPR'' \<mapsto> 3] ambient_stations) 1)
     = 1 / 4 \<and>
   stn_w (outcome_state (Splitter_calculate splitter_012 [''BPR'' \<mapsto> 3] ambient_stations) 2)
     = 3 / 4"
proof -
  have a: "[''BPR'' \<mapsto> 3::real] ''BPR'' = Some 3"
    by simp
  have b: "(0::real) \<le> 3"
    by simp
  have c: "exit0 splitter_012 \<noteq> exit1 splitter_012"
    by (simp add: splitter_012_def)
  have d: "exit0 splitter_012 = 1 \<and> exit1 splitter_012 = 2 \<and> spl_inlet splitter_012 = 0"
    by (simp add: splitter_012_def)
  have e: "stn_w (ambient_stations 0) = 1"
    by (simp add: ambient_stations_def)
  note r = Splitter_calculate_flows
    [of "[''BPR'' \<mapsto> 3]" 3 splitter_012 ambient_stations, OF a b c]
  from a b c d e r show ?thesis
    by simp
qed

text \<open>
  C8.  A \<open>Combustor\<close> whose attributes contain \<open>deltaT\<close>, whatever else they contain (a
  \<open>TEX\<close> entry is never looked at): \<open>calculate\<close> returns, the exit station has the pressure
  and the mass flow of the inlet and the temperature of the inlet plus \<open>deltaT\<close>; when the
  exit is a station other than the inlet, the difference of the two temperatures read back
  after the call is \<open>deltaT\<close>.
\<close>

theorem Combustor_calculate_deltaT:
  assumes "attrs ''deltaT'' = Some dt"
  shows "outcome_error (Combustor_calculate c attrs st) = None \<and>
         stn_p (outcome_state (Combustor_calculate c attrs st) (exit c)) = stn_p (st (inlet c)) \<and>
         stn_w (outcome_state (Combustor_calculate c attrs st) (exit c)) = stn_w (st (inlet c)) \<and>
         stn_t (outcome_state (Combustor_calculate c attrs st) (exit c))
           = stn_t (st (inlet c)) + dt \<and>
         (inlet c \<noteq> exit c \<longrightarrow>
            stn_t (outcome_state (Combustor_calculate c attrs st) (exit c))
              - stn_t (outcome_state (Combustor_calculate c attrs st) (inlet c)) = dt)"
  using assms by (simp add: Combustor_calculate_def Let_def)

theorem Combustor_calculate_deltaT_witness:
  "[''TEX'' \<mapsto> 1600, ''deltaT'' \<mapsto> 200::real] ''deltaT'' = Some 200 \<and>
   inlet combustor_01 \<noteq> exit combustor_01 \<and>
   outcome_error (Combustor_calculate combustor_01 [''TEX'' \<mapsto> 1600, ''deltaT'' \<mapsto> 200]
      ambient_stations) = None \<and>
   stn_t (outcome_state (Combustor_calculate combustor_01 [''TEX'' \<mapsto> 1600, ''deltaT'' \<mapsto> 200]
      ambient_stations) 1) = 500 \<and>
   stn_t (outcome_state (Combustor_calculate combustor_01 [''TEX'' \<mapsto> 1600, ''deltaT'' \<mapsto> 200]
      ambient_stations) 1)
     - stn_t (outcome_state (Combustor_calculate combustor_01 [''TEX'' \<mapsto> 1600, ''deltaT'' \<mapsto> 200]
      ambient_stations) 0) = 200"
proof -
  have a: "[''TEX'' \<mapsto> 1600, ''deltaT'' \<mapsto> 200::real] ''deltaT'' = Some 200"
    by simp
  have b: "inlet combustor_01 \<noteq> exit combustor_01"
    by (simp add: combustor_01_def)
  have d: "exit combustor_01 = 1 \<and> inlet combustor_01 = 0"
    by (simp add: combustor_01_def)
  have e: "stn_t (ambient_stations 0) = 300"
    by (simp add: ambient_stations_def)
  note r = Combustor_calculate_deltaT
    [of "[''TEX'' \<mapsto> 1600, ''deltaT'' \<mapsto> 200]" 200 combustor_01 ambient_stations, OF a]
  from a b d e r show ?thesis
    by simp
qed

section \<open>Properties of the solver\<close>

lemma jacobian_rows_evaluations:
  "jacobian_rows E isets sts cv names defaults m = Inr (rows, m')
     \<Longrightarrow> evaluations m' = evaluations m + length names"
proof (induction names arbitrary: m rows m')
  case Nil
  then show ?case by simp
next
  case (Cons a names)
  then show ?case
    by (auto simp: engine_calculate_def Let_def split: option.splits sum.splits prod.splits)
qed

lemma errors_of_KeyError: "errors_of ts results = Inl x \<Longrightarrow> x = KeyError"
  by (induction ts arbitrary: x) (auto simp: getitem_def split: option.splits sum.splits)

lemma add_corrections_KeyError: "add_corrections vs cs = Inl x \<Longrightarrow> x = KeyError"
  by (induction vs arbitrary: x) (auto simp: getitem_def split: option.splits sum.splits)

lemma getitems_KeyError: "getitems d ks = Inl x \<Longrightarrow> x = KeyError"
  by (induction ks arbitrary: x) (auto simp: getitem_def split: option.splits sum.splits)

lemma matrix_row_KeyError: "matrix_row gs z = Inl x \<Longrightarrow> x = KeyError"
  by (induction gs arbitrary: x) (auto simp: getitem_def split: option.splits sum.splits)

lemma jacobian_matrix_KeyError: "jacobian_matrix gs zs = Inl x \<Longrightarrow> x = KeyError"
  by (induction zs arbitrary: x) (auto split: sum.splits dest: matrix_row_KeyError)

lemma gradient_row_errors:
  "gradient_row names co df pert = Inl x \<Longrightarrow> x = KeyError \<or> x = ZeroDivisionError"
  by (induction names arbitrary: x) (auto simp: getitem_def split: option.splits sum.splits if_splits)

lemma engine_calculate_no_limit:
  "\<forall>v e. calculate E v e \<noteq> Inl IterationLimit \<Longrightarrow> engine_calculate E v m \<noteq> Inl IterationLimit"
  by (auto simp: engine_calculate_def split: sum.splits)

lemma jacobian_rows_no_limit:
  assumes "\<forall>v e. calculate E v e \<noteq> Inl IterationLimit"
  shows "jacobian_rows E isets sts cv names defaults m \<noteq> Inl IterationLimit"
proof (induction names arbitrary: m)
  case Nil
  show ?case by simp
next
  case (Cons a names)
  show ?case
    using engine_calculate_no_limit [OF assms] Cons.IH
    by (auto simp: Let_def split: option.splits sum.splits dest: gradient_row_errors)
qed

lemma next_iteration_no_limit:
  assumes "\<forall>v e. calculate E v e \<noteq> Inl IterationLimit"
    and "\<forall>J b. linsolve J b \<noteq> Inl IterationLimit"
  shows "next_iteration E linsolve isets sts cv errors m \<noteq> Inl IterationLimit"
  using engine_calculate_no_limit [OF assms(1)] jacobian_rows_no_limit [OF assms(1)] assms(2)
  by (auto simp: next_iteration_def generate_jacobian_def
      split: sum.splits list.splits dest: jacobian_matrix_KeyError getitems_KeyError)

lemma loop_body_no_limit:
  assumes "\<forall>v e. calculate E v e \<noteq> Inl IterationLimit"
    and "\<forall>J b. linsolve J b \<noteq> Inl IterationLimit"
  shows "loop_body E linsolve isets targets sts vals m \<noteq> Inl IterationLimit"
  using engine_calculate_no_limit [OF assms(1)] next_iteration_no_limit [OF assms]
  by (auto simp: loop_body_def split: sum.splits dest: errors_of_KeyError add_corrections_KeyError)

lemma solve_loop_limit_iff:
  assumes "\<And>vals m. loop_body E linsolve isets targets sts vals m \<noteq> Inl IterationLimit"
  shows "i \<le> 101 \<Longrightarrow>
     (solve_loop E linsolve isets targets sts i vals m = Inl IterationLimit)
       = (iterates E linsolve isets targets sts (101 - i) vals m \<noteq> None)"
proof (induction "101 - i" arbitrary: i vals m)
  case 0
  then have "i = 101" by simp
  then show ?case by (simp add: solve_loop.simps)
next
  case (Suc k)
  then have i: "i \<le> 100" and k: "k = 101 - (i + 1)" and s: "101 - i = Suc k" by simp_all
  have IH: "\<And>v' m'. (solve_loop E linsolve isets targets sts (i + 1) v' m' = Inl IterationLimit)
       = (iterates E linsolve isets targets sts k v' m' \<noteq> None)"
    using Suc.hyps(1) [of "i + 1"] k i by simp
  show ?case
    using i assms [of vals m] IH
    by (subst solve_loop.simps) (auto simp: s split: sum.splits pass.splits)
qed

lemma solve_loop_returns:
  "iterates E linsolve isets targets sts k vals m = Some (vk, mk)
     \<Longrightarrow> loop_body E linsolve isets targets sts vk mk = Inr (Done v' m')
     \<Longrightarrow> i + k \<le> 100
     \<Longrightarrow> solve_loop E linsolve isets targets sts i vals m = Inr (v', m')"
proof (induction k arbitrary: i vals m)
  case 0
  then show ?case by (subst solve_loop.simps) simp
next
  case (Suc k)
  from Suc.prems(1) obtain v1 m1 where
    b: "loop_body E linsolve isets targets sts vals m = Inr (Again v1 m1)"
    and it: "iterates E linsolve isets targets sts k v1 m1 = Some (vk, mk)"
    by (auto split: sum.splits pass.splits)
  from Suc.prems(3) have "(i + 1) + k \<le> 100" by simp
  from Suc.IH [OF it Suc.prems(2) this] b Suc.prems(3) show ?case
    by (subst solve_loop.simps) simp
qed

lemma iterates_all:
  "(iterates E linsolve isets targets sts (Suc n) vals m \<noteq> None)
     = (\<forall>k \<le> n. \<exists>vk mk v' m'. iterates E linsolve isets targets sts k vals m = Some (vk, mk)
            \<and> loop_body E linsolve isets targets sts vk mk = Inr (Again v' m'))"
proof (induction n arbitrary: vals m)
  case 0
  show ?case by (auto split: sum.splits pass.splits)
next
  case (Suc n)
  show ?case (is "?L = ?R")
  proof (cases "loop_body E linsolve isets targets sts vals m")
    case (Inl a)
    then have "\<not> ?L" by simp
    moreover have "\<not> ?R"
    proof
      assume ?R
      then have "\<exists>vk mk v' m'. iterates E linsolve isets targets sts 0 vals m = Some (vk, mk)
            \<and> loop_body E linsolve isets targets sts vk mk = Inr (Again v' m')" by blast
      with Inl show False by simp
    qed
    ultimately show ?thesis by blast
  next
    case (Inr b)
    show ?thesis
    proof (cases b)
      case (Done v1 m1)
      with Inr have "\<not> ?L" by simp
      moreover have "\<not> ?R"
      proof
        assume ?R
        then have "\<exists>vk mk v' m'. iterates E linsolve isets targets sts 0 vals m = Some (vk, mk)
            \<and> loop_body E linsolve isets targets sts vk mk = Inr (Again v' m')" by blast
        with Inr Done show False by simp
      qed
      ultimately show ?thesis by blast
    next
      case (Again v1 m1)
      with Inr have b: "loop_body E linsolve isets targets sts vals m = Inr (Again v1 m1)" by simp
      have "?L = (iterates E linsolve isets targets sts (Suc n) v1 m1 \<noteq> None)"
        using b by simp
      also have "\<dots> = (\<forall>k \<le> n. \<exists>vk mk v' m'. iterates E linsolve isets targets sts k v1 m1 = Some (vk, mk)
            \<and> loop_body E linsolve isets targets sts vk mk = Inr (Again v' m'))"
        by (rule Suc.IH)
      also have "\<dots> = ?R"
      proof
        assume h: "\<forall>k \<le> n. \<exists>vk mk v' m'. iterates E linsolve isets targets sts k v1 m1 = Some (vk, mk)
            \<and> loop_body E linsolve isets targets sts vk mk = Inr (Again v' m')"
        show ?R
        proof (intro allI impI)
          fix k assume "k \<le> Suc n"
          show "\<exists>vk mk v' m'. iterates E linsolve isets targets sts k vals m = Some (vk, mk)
            \<and> loop_body E linsolve isets targets sts vk mk = Inr (Again v' m')"
          proof (cases k)
            case 0
            with b show ?thesis by simp
          next
            case (Suc j)
            with \<open>k \<le> Suc n\<close> have "j \<le> n" by simp
            with h Suc b show ?thesis by simp
          qed
        qed
      next
        assume r: ?R
        show "\<forall>k \<le> n. \<exists>vk mk v' m'. iterates E linsolve isets targets sts k v1 m1 = Some (vk, mk)
            \<and> loop_body E linsolve isets targets sts vk mk = Inr (Again v' m')"
        proof (intro allI impI)
          fix k assume "k \<le> n"
          then have "Suc k \<le> Suc n" by simp
          with r have "\<exists>vk mk v' m'. iterates E linsolve isets targets sts (Suc k) vals m = Some (vk, mk)
            \<and> loop_body E linsolve isets targets sts vk mk = Inr (Again v' m')" by blast
          with b show "\<exists>vk mk v' m'. iterates E linsolve isets targets sts k v1 m1 = Some (vk, mk)
            \<and> loop_body E linsolve isets targets sts vk mk = Inr (Again v' m')" by simp
        qed
      qed
      finally show ?thesis .
    qed
  qed
qed

lemma loop_body_Done:
  "(loop_body E linsolve isets targets sts vals m = Inr (Done v' m'))
     = (v' = vals \<and> converged_at E targets vals m
          \<and> (\<exists>results. engine_calculate E vals m = Inr (results, m')))"
  by (auto simp: loop_body_def converged_at_def isconverged_def split: sum.splits)

lemma loop_body_Again:
  "loop_body E linsolve isets targets sts vals m = Inr (Again v' m')
     \<Longrightarrow> \<not> converged_at E targets vals m"
  by (auto simp: loop_body_def converged_at_def isconverged_def split: sum.splits if_splits)

text \<open>
  C4.  Let the partition of the targets succeed with as many solver targets as there are
  input settings, and let neither the wrapped object nor the linear solver raise the
  iteration-limit error themselves.  Then \<open>solve\<close> raises the iteration-limit error exactly
  when, for every \<open>k\<close> from 0 to 100, the values after \<open>k\<close> Newton iterations exist and the
  round of the loop at those values goes round again, which it does only when they are not
  converged.  If for some \<open>k\<close> up to 100 the values after \<open>k\<close> Newton iterations are found
  converged, \<open>solve\<close> returns these values.  A round leaves the loop exactly when every
  error at the current values is below \<open>1e-6\<close> in absolute value, and it returns the values
  unchanged.
\<close>

theorem solve_iteration_limit:
  assumes part: "partition_targets E targets e [] = Inr (e1, sts)"
    and par: "length sts = length isets"
    and noE: "\<forall>v e. calculate E v e \<noteq> Inl IterationLimit"
    and noL: "\<forall>J b. linsolve J b \<noteq> Inl IterationLimit"
  shows "((solve E linsolve isets targets e = Inl IterationLimit)
           = (\<forall>k \<le> 100. \<exists>vk mk v' m'.
                 iterates E linsolve isets targets sts k (map (\<lambda>(x, st). (x, sval st)) isets)
                   \<lparr>engine = e1, evaluations = 0\<rparr> = Some (vk, mk)
                 \<and> loop_body E linsolve isets targets sts vk mk = Inr (Again v' m')
                 \<and> \<not> converged_at E targets vk mk))
       \<and> (\<forall>k \<le> 100. \<forall>vk mk.
              iterates E linsolve isets targets sts k (map (\<lambda>(x, st). (x, sval st)) isets)
                \<lparr>engine = e1, evaluations = 0\<rparr> = Some (vk, mk)
              \<and> converged_at E targets vk mk
              \<longrightarrow> (\<exists>m'. solve E linsolve isets targets e = Inr (vk, m')))
       \<and> (\<forall>vals m v' m'.
              (loop_body E linsolve isets targets sts vals m = Inr (Done v' m'))
                = (v' = vals \<and> converged_at E targets vals m
                     \<and> (\<exists>results. engine_calculate E vals m = Inr (results, m'))))"
proof -
  let ?v0 = "map (\<lambda>(x, st). (x, sval st)) isets"
  let ?m0 = "\<lparr>engine = e1, evaluations = 0\<rparr>"
  have s: "solve E linsolve isets targets e = solve_loop E linsolve isets targets sts 0 ?v0 ?m0"
    using part par by (simp add: solve_def)
  have nl: "\<And>vals m. loop_body E linsolve isets targets sts vals m \<noteq> Inl IterationLimit"
    by (rule loop_body_no_limit [OF noE noL])
  have "(solve E linsolve isets targets e = Inl IterationLimit)
          = (iterates E linsolve isets targets sts (Suc 100) ?v0 ?m0 \<noteq> None)"
    using solve_loop_limit_iff [of E linsolve isets targets sts 0 ?v0 ?m0, OF nl] s by simp
  also have "\<dots> = (\<forall>k \<le> 100. \<exists>vk mk v' m'.
                 iterates E linsolve isets targets sts k ?v0 ?m0 = Some (vk, mk)
                 \<and> loop_body E linsolve isets targets sts vk mk = Inr (Again v' m'))"
    by (rule iterates_all)
  also have "\<dots> = (\<forall>k \<le> 100. \<exists>vk mk v' m'.
                 iterates E linsolve isets targets sts k ?v0 ?m0 = Some (vk, mk)
                 \<and> loop_body E linsolve isets targets sts vk mk = Inr (Again v' m')
                 \<and> \<not> converged_at E targets vk mk)"
    using loop_body_Again [of E linsolve isets targets sts] by blast
  finally have A: "(solve E linsolve isets targets e = Inl IterationLimit)
           = (\<forall>k \<le> 100. \<exists>vk mk v' m'.
                 iterates E linsolve isets targets sts k ?v0 ?m0 = Some (vk, mk)
                 \<and> loop_body E linsolve isets targets sts vk mk = Inr (Again v' m')
                 \<and> \<not> converged_at E targets vk mk)" .
  have B: "\<forall>k \<le> 100. \<forall>vk mk.
              iterates E linsolve isets targets sts k ?v0 ?m0 = Some (vk, mk)
              \<and> converged_at E targets vk mk
              \<longrightarrow> (\<exists>m'. solve E linsolve isets targets e = Inr (vk, m'))"
  proof (intro allI impI)
    fix k vk mk
    assume k: "k \<le> 100"
      and h: "iterates E linsolve isets targets sts k ?v0 ?m0 = Some (vk, mk)
                \<and> converged_at E targets vk mk"
    from h obtain results m1 where "engine_calculate E vk mk = Inr (results, m1)"
      by (auto simp: converged_at_def split: sum.splits)
    with h have d: "loop_body E linsolve isets targets sts vk mk = Inr (Done vk m1)"
      by (simp add: loop_body_Done)
    from k have "0 + k \<le> 100" by simp
    from solve_loop_returns [OF conjunct1 [OF h] d this] s
    show "\<exists>m'. solve E linsolve isets targets e = Inr (vk, m')" by simp
  qed
  from A B loop_body_Done [of E linsolve isets targets sts] show ?thesis
    by blast
qed

lemma line_engine_no_limit: "\<forall>v e. calculate line_engine v e \<noteq> Inl IterationLimit"
  by (auto simp: line_engine_def getitem_def split: option.splits)

lemma solve_1x1_no_limit: "\<forall>J b. solve_1x1 J b \<noteq> Inl IterationLimit"
  by (auto simp: solve_1x1_def split: list.splits)

lemma line_engine_round:
  "loop_body line_engine solve_1x1 [(''x'', \<lparr>perturbation = 1, sval = 0\<rparr>)]
      [(''z'', 1)] [(''z'', 1)] [(''x'', 0)] \<lparr>engine = (), evaluations = 0\<rparr>
     = Inr (Again [(''x'', 1)] \<lparr>engine = (), evaluations = 3\<rparr>)"
  by (simp add: line_engine_def solve_1x1_def loop_body_def engine_calculate_def getitem_def
      isconverged_def next_iteration_def generate_jacobian_def)

theorem solve_iteration_limit_witness:
  "partition_targets line_engine [(''z'', 1)] () [] = Inr ((), [(''z'', 1)]) \<and>
   length [(''z'', 1::real)] = length [(''x'', \<lparr>perturbation = 1, sval = 0\<rparr>)] \<and>
   (1::nat) \<le> 100 \<and>
   iterates line_engine solve_1x1 [(''x'', \<lparr>perturbation = 1, sval = 0\<rparr>)] [(''z'', 1)]
      [(''z'', 1)] 1 [(''x'', 0)] \<lparr>engine = (), evaluations = 0\<rparr>
     = Some ([(''x'', 1)], \<lparr>engine = (), evaluations = 3\<rparr>) \<and>
   converged_at line_engine [(''z'', 1)] [(''x'', 1)] \<lparr>engine = (), evaluations = 3\<rparr> \<and>
   map_sum id fst (solve line_engine solve_1x1 [(''x'', \<lparr>perturbation = 1, sval = 0\<rparr>)]
      [(''z'', 1)] ()) = Inr [(''x'', 1)]"
proof -
  have a: "partition_targets line_engine [(''z'', 1)] () [] = Inr ((), [(''z'', 1)])"
    by (simp add: line_engine_def)
  have b: "length [(''z'', 1::real)] = length [(''x'', \<lparr>perturbation = 1, sval = 0\<rparr>)]"
    by simp
  have c: "(1::nat) \<le> 100"
    by simp
  have d: "iterates line_engine solve_1x1 [(''x'', \<lparr>perturbation = 1, sval = 0\<rparr>)] [(''z'', 1)]
      [(''z'', 1)] 1 [(''x'', 0)] \<lparr>engine = (), evaluations = 0\<rparr>
     = Some ([(''x'', 1)], \<lparr>engine = (), evaluations = 3\<rparr>)"
    using line_engine_round by simp
  have e: "converged_at line_engine [(''z'', 1)] [(''x'', 1)] \<lparr>engine = (), evaluations = 3\<rparr>"
    by (simp add: converged_at_def line_engine_def engine_calculate_def getitem_def)
  have v0: "map (\<lambda>(x, st). (x, sval st)) [(''x'', \<lparr>perturbation = 1, sval = 0\<rparr>)]
              = [(''x'', 0)]"
    by simp
  note r = solve_iteration_limit [OF a b line_engine_no_limit solve_1x1_no_limit,
      unfolded v0]
  from r have r2: "\<forall>k \<le> 100. \<forall>vk mk.
      iterates line_engine solve_1x1 [(''x'', \<lparr>perturbation = 1, sval = 0\<rparr>)] [(''z'', 1)]
        [(''z'', 1)] k [(''x'', 0)] \<lparr>engine = (), evaluations = 0\<rparr> = Some (vk, mk)
      \<and> converged_at line_engine [(''z'', 1)] vk mk
      \<longrightarrow> (\<exists>m'. solve line_engine solve_1x1 [(''x'', \<lparr>perturbation = 1, sval = 0\<rparr>)]
             [(''z'', 1)] () = Inr (vk, m'))"
    by (rule conjunct1 [OF conjunct2])
  from r2 [rule_format, OF c conjI [OF d e]]
  have "\<exists>m'. solve line_engine solve_1x1 [(''x'', \<lparr>perturbation = 1, sval = 0\<rparr>)]
             [(''z'', 1)] () = Inr ([(''x'', 1)], m')" .
  with a b c d e show ?thesis
    by auto
qed

text \<open>
  C5, as the code has it.  A round of the loop that goes round again has invoked
  \<open>calculate\<close> once for the error vector, once more at the same values at the start of
  \<open>generate_jacobian\<close>, and once for every input: the number of inputs plus two.  The
  gradients are built from the evaluations of this round only.
\<close>

theorem loop_body_evaluations:
  assumes "loop_body E linsolve isets targets sts vals m = Inr (Again vals' m')"
  shows "evaluations m' = evaluations m + length vals + 2"
  using assms
  by (auto simp: loop_body_def next_iteration_def generate_jacobian_def engine_calculate_def
      split: sum.splits prod.splits if_splits list.splits dest!: jacobian_rows_evaluations)

theorem loop_body_evaluations_witness:
  "loop_body line_engine solve_1x1 [(''x'', \<lparr>perturbation = 1, sval = 0\<rparr>)]
      [(''z'', 1)] [(''z'', 1)] [(''x'', 0)] \<lparr>engine = (), evaluations = 0\<rparr>
     = Inr (Again [(''x'', 1)] \<lparr>engine = (), evaluations = 3\<rparr>) \<and>
   evaluations \<lparr>engine = (), evaluations = 3\<rparr>
     = evaluations \<lparr>engine = (), evaluations = 0\<rparr> + length [(''x'', 0::real)] + 2"
  using line_engine_round loop_body_evaluations [OF line_engine_round] by simp

text \<open>
  The claim C5 as the specification states it, the number of inputs plus one, fails on a
  round with one input: three evaluations, not two.
\<close>

theorem loop_body_evaluations_counterexample:
  "loop_body line_engine solve_1x1 [(''x'', \<lparr>perturbation = 1, sval = 0\<rparr>)]
      [(''z'', 1)] [(''z'', 1)] [(''x'', 0)] \<lparr>engine = (), evaluations = 0\<rparr>
     = Inr (Again [(''x'', 1)] \<lparr>engine = (), evaluations = 3\<rparr>) \<and>
   evaluations \<lparr>engine = (), evaluations = 3\<rparr>
     \<noteq> evaluations \<lparr>engine = (), evaluations = 0\<rparr> + (length [(''x'', 0::real)] + 1)"
  by (simp add: line_engine_def solve_1x1_def loop_body_def engine_calculate_def getitem_def
      isconverged_def next_iteration_def generate_jacobian_def)

text \<open>
  C6 on a set of targets that holds an input alias.  \<open>RIT\<close> is an input alias of the wrapped
  object and \<open>THRUST\<close> is one of its outputs.  The alias is applied and removed from the
  solver targets, the parity check passes, but the error vector is then built over all
  requested targets: \<open>results['RIT']\<close> raises \<open>KeyError\<close> in the first round.
\<close>

theorem solve_mixed_targets_KeyError:
  "solve alias_plant linsolve [(''FLOW'', \<lparr>perturbation = 1 / 100, sval = 1\<rparr>)]
     [(''RIT'', 1600), (''THRUST'', 5000)] 0 = Inl KeyError"
  by (simp add: solve_def alias_plant_def solve_loop.simps loop_body_def engine_calculate_def
      getitem_def)

text \<open>
  C9 on the call that \<open>test2\<close> makes.  \<open>TestFunction\<close> has no attribute \<open>input_aliases\<close>, so
  the partition of the targets raises \<open>AttributeError\<close> at the first target, before any
  evaluation.
\<close>

theorem solve_TestFunction_AttributeError:
  "solve TestFunction linsolve test2_input_settings test2_targets () = Inl AttributeError"
  by (simp add: solve_def test2_targets_def TestFunction_def)

section \<open>Idempotence of EngineAssembly.calculate\<close>

subsection \<open>Clean objects were computed after what they read\<close>

text \<open>
  \<open>update\<close> keeps a state sound, and in a sound state every clean object has all the
  objects computed before it clean as well.
\<close>

lemma soundI:
  assumes "\<And>n. n \<in> D \<Longrightarrow> \<not> dirty s n \<Longrightarrow> \<not> list_ex (dirty s) (precedents g n)"
    and "\<And>n. n \<in> D \<Longrightarrow> \<not> dirty s n \<Longrightarrow> n \<noteq> r
           \<Longrightarrow> \<exists>m \<in> D. n \<in> set (dependents g m) \<and> \<not> dirty s m"
  shows "sound g D r s"
  unfolding sound_def using assms by blast

lemma sound_precedents:
  "sound g D r s \<Longrightarrow> n \<in> D \<Longrightarrow> \<not> dirty s n \<Longrightarrow> p \<in> set (precedents g n) \<Longrightarrow> \<not> dirty s p"
  unfolding sound_def by (auto simp: list_ex_iff)

lemma sound_parent:
  "sound g D r s \<Longrightarrow> n \<in> D \<Longrightarrow> \<not> dirty s n \<Longrightarrow> n \<noteq> r
     \<Longrightarrow> \<exists>m \<in> D. n \<in> set (dependents g m) \<and> \<not> dirty s m"
  unfolding sound_def by blast

lemma sound_cleared:
  assumes snd: "sound g D r s"
    and free: "\<not> list_ex (dirty s) (precedents g n)"
    and par: "n = r \<or> (\<exists>m \<in> D. n \<in> set (dependents g m) \<and> \<not> dirty s m)"
    and d1: "dirty s1 = (dirty s)(n := False)"
  shows "sound g D r s1"
proof (rule soundI)
  fix x assume x: "x \<in> D" "\<not> dirty s1 x"
  show "\<not> list_ex (dirty s1) (precedents g x)"
  proof (cases "x = n")
    case True
    with free show ?thesis by (auto simp: d1 list_ex_iff)
  next
    case False
    with x have "\<not> dirty s x" by (simp add: d1)
    with snd x(1) have "\<not> list_ex (dirty s) (precedents g x)" by (simp add: sound_def)
    then show ?thesis by (auto simp: d1 list_ex_iff)
  qed
next
  fix x assume x: "x \<in> D" "\<not> dirty s1 x" "x \<noteq> r"
  show "\<exists>m \<in> D. x \<in> set (dependents g m) \<and> \<not> dirty s1 m"
  proof (cases "x = n")
    case True
    with par x(3) obtain m where "m \<in> D" "n \<in> set (dependents g m)" "\<not> dirty s m" by blast
    with True show ?thesis by (auto simp: d1)
  next
    case False
    with x have "\<not> dirty s x" by (simp add: d1)
    from sound_parent [OF snd x(1) this x(3)]
    obtain m where "m \<in> D" "x \<in> set (dependents g m)" "\<not> dirty s m" by blast
    then show ?thesis by (auto simp: d1)
  qed
qed

lemma sound_payload: "sound g D r (s\<lparr>payload := x\<rparr>) = sound g D r s"
  by (simp add: sound_def)

lemma for_each_sound:
  assumes step: "\<And>(s::'p state) d out. d \<in> set ds \<Longrightarrow> sound g D r s \<Longrightarrow> \<not> dirty s n
      \<Longrightarrow> f s d = Some out \<Longrightarrow> sound g D r (outcome_state out)"
    and mono: "\<And>(s::'p state) d out. d \<in> set ds \<Longrightarrow> f s d = Some out
      \<Longrightarrow> dirty (outcome_state out) n \<Longrightarrow> dirty s n"
  shows "sound g D r (s::'p state) \<Longrightarrow> \<not> dirty s n \<Longrightarrow> for_each f ds s = Some out
           \<Longrightarrow> sound g D r (outcome_state out)"
  using step mono
proof (induction ds arbitrary: s)
  case Nil
  then show ?case by auto
next
  case (Cons a ds)
  show ?case
  proof (cases "f s a")
    case None
    with Cons.prems(3) show ?thesis by simp
  next
    case (Some o1)
    have s1: "sound g D r (outcome_state o1)"
      by (rule Cons.prems(4) [OF _ Cons.prems(1) Cons.prems(2) Some]) simp
    show ?thesis
    proof (cases o1)
      case (Raised e s')
      with Some Cons.prems(3) have "out = o1" by simp
      with s1 show ?thesis by simp
    next
      case (Returned s')
      with Some Cons.prems(3) have r: "for_each f ds s' = Some out" by simp
      from s1 Returned have a: "sound g D r s'" by simp
      have b: "\<not> dirty s' n"
        using Cons.prems(5) [OF _ Some] Cons.prems(2) Returned by auto
      show ?thesis
        by (rule Cons.IH [OF a b r]) (rule Cons.prems(4), simp_all, rule Cons.prems(5), simp_all)
    qed
  qed
qed

lemma update_sound:
  assumes closed: "\<And>m d. m \<in> D \<Longrightarrow> d \<in> set (dependents g m) \<Longrightarrow> d \<in> D"
  shows "sound g D r (s::'p state) \<Longrightarrow> n \<in> D
     \<Longrightarrow> n = r \<or> (\<exists>m \<in> D. n \<in> set (dependents g m) \<and> \<not> dirty s m)
     \<Longrightarrow> update k g calc s n = Some out \<Longrightarrow> sound g D r (outcome_state out)"
proof (induction k arbitrary: s n out)
  case 0
  then show ?case by simp
next
  case (Suc k)
  show ?case
  proof (cases "dirty s n \<and> \<not> list_ex (dirty s) (precedents g n)")
    case False
    with Suc.prems(4) have "outcome_state out = s" by (auto split: if_splits)
    with Suc.prems(1) show ?thesis by simp
  next
    case True
    define s1 where "s1 = s\<lparr>dirty := (dirty s)(n := False), computed := computed s @ [n]\<rparr>"
    have "dirty s1 = (dirty s)(n := False)" by (simp add: s1_def)
    from sound_cleared [OF Suc.prems(1) conjunct2 [OF True] Suc.prems(3) this]
    have snd1: "sound g D r s1" .
    show ?thesis
    proof (cases "calc n (attributes s1 n) (payload s1)")
      case (Raised e x)
      with True Suc.prems(4) have "outcome_state out = s1\<lparr>payload := x\<rparr>"
        by (auto simp: s1_def Let_def)
      with snd1 show ?thesis by (simp add: sound_payload)
    next
      case (Returned x)
      with True Suc.prems(4) have
        r: "for_each (update k g calc) (dependents g n) (s1\<lparr>payload := x\<rparr>) = Some out"
        by (auto simp: s1_def Let_def)
      have a: "sound g D r (s1\<lparr>payload := x\<rparr>)" using snd1 by (simp add: sound_payload)
      have b: "\<not> dirty (s1\<lparr>payload := x\<rparr>) n" by (simp add: s1_def)
      show ?thesis
      proof (rule for_each_sound [OF _ _ a b r])
        fix t :: "'p state" and d o1
        assume d: "d \<in> set (dependents g n)" and st: "sound g D r t" and fn: "\<not> dirty t n"
          and u: "update k g calc t d = Some o1"
        from closed [OF Suc.prems(2) d] have dD: "d \<in> D" .
        from d fn Suc.prems(2) have "d = r \<or> (\<exists>m \<in> D. d \<in> set (dependents g m) \<and> \<not> dirty t m)"
          by blast
        from Suc.IH [OF st dD this u] show "sound g D r (outcome_state o1)" .
      next
        fix t :: "'p state" and d o1
        assume "d \<in> set (dependents g n)" and u: "update k g calc t d = Some o1"
          and "dirty (outcome_state o1) n"
        then show "dirty t n"
          using progress_dirty [OF update_progress [OF u]] by blast
      qed
    qed
  qed
qed

lemma before_fresh:
  assumes snd: "sound g D r s"
    and link: "\<And>d p. d \<in> D \<Longrightarrow> p \<in> set (precedents g d) \<Longrightarrow> p \<in> D"
  shows "(w, n) \<in> (before g D r)\<^sup>+ \<Longrightarrow> n \<in> D \<Longrightarrow> \<not> dirty s n \<Longrightarrow> w \<in> D \<and> \<not> dirty s w"
proof (induction rule: converse_trancl_induct)
  case (base y)
  from base.hyps show ?case
  proof (simp add: before_def, elim disjE conjE)
    assume "y \<in> set (precedents g n)"
    with sound_precedents [OF snd base.prems(1) base.prems(2)] link [OF base.prems(1)]
    show "y \<in> D \<and> \<not> dirty s y" by blast
  next
    assume u: "n \<noteq> r" "y \<in> D" "n \<in> set (dependents g y)"
      "\<forall>m' \<in> D. n \<in> set (dependents g m') \<longrightarrow> m' = y"
    from sound_parent [OF snd base.prems(1) base.prems(2) u(1)]
    obtain m where "m \<in> D" "n \<in> set (dependents g m)" "\<not> dirty s m" by blast
    with u show "y \<in> D \<and> \<not> dirty s y" by blast
  qed
next
  case (step y z)
  from step.IH [OF step.prems] have z: "z \<in> D" "\<not> dirty s z" by simp_all
  from step.hyps(1) show ?case
  proof (simp add: before_def, elim disjE conjE)
    assume "y \<in> set (precedents g z)"
    with sound_precedents [OF snd z] link [OF z(1)]
    show "y \<in> D \<and> \<not> dirty s y" by blast
  next
    assume u: "z \<noteq> r" "y \<in> D" "z \<in> set (dependents g y)"
      "\<forall>m' \<in> D. z \<in> set (dependents g m') \<longrightarrow> m' = y"
    from sound_parent [OF snd z u(1)]
    obtain m where "m \<in> D" "z \<in> set (dependents g m)" "\<not> dirty s m" by blast
    with u show "y \<in> D \<and> \<not> dirty s y" by blast
  qed
qed

subsection \<open>Two runs from states that agree\<close>

text \<open>
  Run from two states that are alike, of which the first is sound, \<open>update\<close> returns in both
  or in neither and leaves them alike: each method finds the locations of its read set
  equal in the two runs.  A run that returns changes only locations of write sets of the
  objects downstream.
\<close>

lemma disciplined_frame:
  "disciplined g D r calc reads writes \<Longrightarrow> n \<in> D \<Longrightarrow> calc n a x = Returned x' \<Longrightarrow> l \<notin> writes n
     \<Longrightarrow> x' l = x l"
  unfolding disciplined_def by blast

lemma disciplined_same:
  "disciplined g D r calc reads writes \<Longrightarrow> n \<in> D \<Longrightarrow> calc n a x = Returned x'
     \<Longrightarrow> (\<And>l. l \<in> reads n \<Longrightarrow> y l = x l)
     \<Longrightarrow> \<exists>y'. calc n a y = Returned y' \<and> (\<forall>l \<in> writes n. y' l = x' l)"
  unfolding disciplined_def by blast

lemma disciplined_before:
  "disciplined g D r calc reads writes \<Longrightarrow> n \<in> D \<Longrightarrow> l \<in> reads n \<Longrightarrow> w' \<in> D \<Longrightarrow> l \<in> writes w'
     \<Longrightarrow> \<exists>w \<in> D. w \<noteq> n \<and> l \<in> writes w \<and> (w, n) \<in> (before g D r)\<^sup>+"
  unfolding disciplined_def by blast

lemma agreeD:
  "agree D writes s t \<Longrightarrow> (\<forall>w \<in> D. l \<notin> writes w) \<or> (\<exists>w \<in> D. l \<in> writes w \<and> \<not> dirty s w)
     \<Longrightarrow> payload t l = payload s l"
  unfolding agree_def by blast

lemma for_each_alike:
  assumes step: "\<And>(s::(nat \<Rightarrow> 'v) state) t d s'. d \<in> set ds \<Longrightarrow> alike D wr s t \<Longrightarrow> sound g D r s
        \<Longrightarrow> \<not> dirty s n \<Longrightarrow> f s d = Some (Returned s')
        \<Longrightarrow> \<exists>t'. f t d = Some (Returned t') \<and> alike D wr s' t'"
    and snd: "\<And>(s::(nat \<Rightarrow> 'v) state) d out. d \<in> set ds \<Longrightarrow> sound g D r s \<Longrightarrow> \<not> dirty s n
        \<Longrightarrow> f s d = Some out \<Longrightarrow> sound g D r (outcome_state out)"
    and mono: "\<And>(s::(nat \<Rightarrow> 'v) state) d out. d \<in> set ds \<Longrightarrow> f s d = Some out
        \<Longrightarrow> dirty (outcome_state out) n \<Longrightarrow> dirty s n"
  shows "alike D wr (s::(nat \<Rightarrow> 'v) state) t \<Longrightarrow> sound g D r s \<Longrightarrow> \<not> dirty s n
     \<Longrightarrow> for_each f ds s = Some (Returned s')
     \<Longrightarrow> \<exists>t'. for_each f ds t = Some (Returned t') \<and> alike D wr s' t'"
  using step snd mono
proof (induction ds arbitrary: s t)
  case Nil
  then show ?case by simp
next
  case (Cons a ds)
  from Cons.prems(4) obtain s1 where a: "f s a = Some (Returned s1)"
    and r: "for_each f ds s1 = Some (Returned s')"
    by (auto split: option.splits outcome.splits)
  from Cons.prems(5) [OF _ Cons.prems(1) Cons.prems(2) Cons.prems(3) a]
  obtain t1 where ta: "f t a = Some (Returned t1)" and al: "alike D wr s1 t1" by auto
  from Cons.prems(6) [OF _ Cons.prems(2) Cons.prems(3) a] have s1: "sound g D r s1" by simp
  from Cons.prems(7) [OF _ a] Cons.prems(3) have f1: "\<not> dirty s1 n" by auto
  have "\<exists>t'. for_each f ds t1 = Some (Returned t') \<and> alike D wr s' t'"
  proof (rule Cons.IH [OF al s1 f1 r])
    fix u :: "(nat \<Rightarrow> 'v) state" and v d u'
    assume "d \<in> set ds" "alike D wr u v" "sound g D r u" "\<not> dirty u n" "f u d = Some (Returned u')"
    then show "\<exists>t'. f v d = Some (Returned t') \<and> alike D wr u' t'"
      using Cons.prems(5) [of d u v u'] by simp
  next
    fix u :: "(nat \<Rightarrow> 'v) state" and d out
    assume "d \<in> set ds" "sound g D r u" "\<not> dirty u n" "f u d = Some out"
    then show "sound g D r (outcome_state out)"
      using Cons.prems(6) [of d u out] by simp
  next
    fix u :: "(nat \<Rightarrow> 'v) state" and d out
    assume "d \<in> set ds" "f u d = Some out" "dirty (outcome_state out) n"
    then show "dirty u n"
      using Cons.prems(7) [of d u out] by simp
  qed
  with ta show ?case by simp
qed

lemma update_alike:
  assumes disc: "disciplined g D r calc reads wr"
    and closed: "\<And>m d. m \<in> D \<Longrightarrow> d \<in> set (dependents g m) \<Longrightarrow> d \<in> D"
    and link: "\<And>d p. d \<in> D \<Longrightarrow> p \<in> set (precedents g d) \<Longrightarrow> p \<in> D"
  shows "alike D wr (s::(nat \<Rightarrow> 'v) state) t \<Longrightarrow> sound g D r s \<Longrightarrow> n \<in> D
     \<Longrightarrow> n = r \<or> (\<exists>m \<in> D. n \<in> set (dependents g m) \<and> \<not> dirty s m)
     \<Longrightarrow> update k g calc s n = Some (Returned s')
     \<Longrightarrow> \<exists>t'. update k g calc t n = Some (Returned t') \<and> alike D wr s' t'"
proof (induction k arbitrary: s t n s')
  case 0
  then show ?case by simp
next
  case (Suc k)
  from Suc.prems(1) have dt: "\<And>m. m \<in> D \<Longrightarrow> dirty t m = dirty s m"
    and at: "\<And>a. a \<in> D \<Longrightarrow> attributes t a = attributes s a"
    and ag: "agree D wr s t"
    by (simp_all add: alike_def)
  from Suc.prems(5) have dn: "dirty s n" by (auto split: if_splits)
  from dn dt [OF Suc.prems(3)] have dtn: "dirty t n" by simp
  have lt: "list_ex (dirty t) (precedents g n) = list_ex (dirty s) (precedents g n)"
    using dt link [OF Suc.prems(3)] by (auto simp: list_ex_iff)
  show ?case
  proof (cases "list_ex (dirty s) (precedents g n)")
    case True
    with dn Suc.prems(5) have "s' = s" by simp
    moreover from True dtn lt have "update (Suc k) g calc t n = Some (Returned t)" by simp
    ultimately show ?thesis using Suc.prems(1) by simp
  next
    case False
    define s1 where "s1 = s\<lparr>dirty := (dirty s)(n := False), computed := computed s @ [n]\<rparr>"
    define t1 where "t1 = t\<lparr>dirty := (dirty t)(n := False), computed := computed t @ [n]\<rparr>"
    from dn False Suc.prems(5) obtain x where
      cx: "calc n (attributes s n) (payload s) = Returned x"
      and r: "for_each (update k g calc) (dependents g n) (s1\<lparr>payload := x\<rparr>) = Some (Returned s')"
      by (auto simp: s1_def Let_def split: outcome.splits)
    have d1: "dirty s1 = (dirty s)(n := False)" by (simp add: s1_def)
    from sound_cleared [OF Suc.prems(2) False Suc.prems(4) d1] have snd1: "sound g D r s1" .
    have f1: "\<not> dirty s1 n" by (simp add: s1_def)
    have rd: "\<And>l. l \<in> reads n \<Longrightarrow> payload t l = payload s l"
    proof -
      fix l assume l: "l \<in> reads n"
      show "payload t l = payload s l"
      proof (cases "\<exists>w \<in> D. l \<in> wr w")
        case False
        with ag show ?thesis by (auto dest: agreeD)
      next
        case True
        then obtain w' where "w' \<in> D" "l \<in> wr w'" by blast
        from disciplined_before [OF disc Suc.prems(3) l this]
        obtain w where w: "w \<in> D" "w \<noteq> n" "l \<in> wr w" "(w, n) \<in> (before g D r)\<^sup>+" by blast
        from before_fresh [OF snd1 link w(4) Suc.prems(3) f1] have "\<not> dirty s1 w" by simp
        with w(2) have "\<not> dirty s w" by (simp add: s1_def)
        with w(1) w(3) ag show ?thesis by (auto dest: agreeD)
      qed
    qed
    from disciplined_same [OF disc Suc.prems(3) cx rd]
    obtain y where cy: "calc n (attributes s n) (payload t) = Returned y"
      and yw: "\<And>l. l \<in> wr n \<Longrightarrow> y l = x l" by blast
    from at [OF Suc.prems(3)] cy have cy': "calc n (attributes t n) (payload t) = Returned y"
      by simp
    have tu: "update (Suc k) g calc t n
                = for_each (update k g calc) (dependents g n) (t1\<lparr>payload := y\<rparr>)"
      using dtn False lt cy' by (simp add: t1_def Let_def)
    have al1: "alike D wr (s1\<lparr>payload := x\<rparr>) (t1\<lparr>payload := y\<rparr>)"
      unfolding alike_def
    proof (intro conjI ballI)
      fix m assume "m \<in> D"
      then show "dirty (t1\<lparr>payload := y\<rparr>) m = dirty (s1\<lparr>payload := x\<rparr>) m"
        by (simp add: s1_def t1_def dt)
    next
      fix a assume "a \<in> D"
      then show "attributes (t1\<lparr>payload := y\<rparr>) a = attributes (s1\<lparr>payload := x\<rparr>) a"
        by (simp add: s1_def t1_def at)
    next
      show "agree D wr (s1\<lparr>payload := x\<rparr>) (t1\<lparr>payload := y\<rparr>)"
        unfolding agree_def
      proof (intro allI impI)
        fix l
        assume h: "(\<forall>w \<in> D. l \<notin> wr w)
                 \<or> (\<exists>w \<in> D. l \<in> wr w \<and> \<not> dirty (s1\<lparr>payload := x\<rparr>) w)"
        show "payload (t1\<lparr>payload := y\<rparr>) l = payload (s1\<lparr>payload := x\<rparr>) l"
        proof (cases "l \<in> wr n")
          case True
          then show ?thesis by (simp add: yw)
        next
          case False
          from disciplined_frame [OF disc Suc.prems(3) cx False] have xl: "x l = payload s l" .
          from disciplined_frame [OF disc Suc.prems(3) cy False] have yl: "y l = payload t l" .
          from h False have "(\<forall>w \<in> D. l \<notin> wr w) \<or> (\<exists>w \<in> D. l \<in> wr w \<and> \<not> dirty s w)"
            by (auto simp: s1_def split: if_splits)
          from agreeD [OF ag this] xl yl show ?thesis by simp
        qed
      qed
    qed
    have snd2: "sound g D r (s1\<lparr>payload := x\<rparr>)" using snd1 by (simp add: sound_payload)
    have f2: "\<not> dirty (s1\<lparr>payload := x\<rparr>) n" by (simp add: s1_def)
    have "\<exists>t'. for_each (update k g calc) (dependents g n) (t1\<lparr>payload := y\<rparr>) = Some (Returned t')
            \<and> alike D wr s' t'"
    proof (rule for_each_alike [OF _ _ _ al1 snd2 f2 r])
      fix u :: "(nat \<Rightarrow> 'v) state" and v d u'
      assume d: "d \<in> set (dependents g n)" and a: "alike D wr u v" and su: "sound g D r u"
        and fu: "\<not> dirty u n" and uu: "update k g calc u d = Some (Returned u')"
      from closed [OF Suc.prems(3) d] have dD: "d \<in> D" .
      from d fu Suc.prems(3) have "d = r \<or> (\<exists>m \<in> D. d \<in> set (dependents g m) \<and> \<not> dirty u m)"
        by blast
      from Suc.IH [OF a su dD this uu]
      show "\<exists>t'. update k g calc v d = Some (Returned t') \<and> alike D wr u' t'" .
    next
      fix u :: "(nat \<Rightarrow> 'v) state" and d out
      assume d: "d \<in> set (dependents g n)" and su: "sound g D r u" and fu: "\<not> dirty u n"
        and uu: "update k g calc u d = Some out"
      from closed [OF Suc.prems(3) d] have dD: "d \<in> D" .
      from d fu Suc.prems(3) have "d = r \<or> (\<exists>m \<in> D. d \<in> set (dependents g m) \<and> \<not> dirty u m)"
        by blast
      from update_sound [OF closed su dD this uu]
      show "sound g D r (outcome_state out)" by simp
    next
      fix u :: "(nat \<Rightarrow> 'v) state" and d out
      assume "d \<in> set (dependents g n)" and uu: "update k g calc u d = Some out"
        and "dirty (outcome_state out) n"
      then show "dirty u n"
        using progress_dirty [OF update_progress [OF uu]] by blast
    qed
    with tu show ?thesis by simp
  qed
qed

lemma for_each_frame:
  assumes step: "\<And>(s::(nat \<Rightarrow> 'v) state) d s'. d \<in> set ds \<Longrightarrow> f s d = Some (Returned s')
        \<Longrightarrow> payload s' l = payload s l"
  shows "for_each f ds (s::(nat \<Rightarrow> 'v) state) = Some (Returned s') \<Longrightarrow> payload s' l = payload s l"
  using step
proof (induction ds arbitrary: s)
  case Nil
  then show ?case by simp
next
  case (Cons a ds)
  from Cons.prems(1) obtain s1 where a: "f s a = Some (Returned s1)"
    and r: "for_each f ds s1 = Some (Returned s')"
    by (auto split: option.splits outcome.splits)
  have "payload s1 l = payload s l"
    by (rule Cons.prems(2) [OF _ a]) simp
  moreover have "payload s' l = payload s1 l"
    by (rule Cons.IH [OF r]) (rule Cons.prems(2), simp_all)
  ultimately show ?case by simp
qed

lemma update_frame:
  assumes disc: "disciplined g D r calc reads wr"
    and closed: "\<And>m d. m \<in> D \<Longrightarrow> d \<in> set (dependents g m) \<Longrightarrow> d \<in> D"
    and nw: "\<forall>w \<in> D. l \<notin> wr w"
  shows "n \<in> D \<Longrightarrow> update k g calc (s::(nat \<Rightarrow> 'v) state) n = Some (Returned s')
           \<Longrightarrow> payload s' l = payload s l"
proof (induction k arbitrary: s n s')
  case 0
  then show ?case by simp
next
  case (Suc k)
  from Suc.prems(2) have dn: "dirty s n" by (auto split: if_splits)
  show ?case
  proof (cases "list_ex (dirty s) (precedents g n)")
    case True
    with dn Suc.prems(2) show ?thesis by simp
  next
    case False
    define s1 where "s1 = s\<lparr>dirty := (dirty s)(n := False), computed := computed s @ [n]\<rparr>"
    from dn False Suc.prems(2) obtain x where
      cx: "calc n (attributes s n) (payload s) = Returned x"
      and r: "for_each (update k g calc) (dependents g n) (s1\<lparr>payload := x\<rparr>) = Some (Returned s')"
      by (auto simp: s1_def Let_def split: outcome.splits)
    from nw Suc.prems(1) have "l \<notin> wr n" by blast
    from disciplined_frame [OF disc Suc.prems(1) cx this] have xl: "x l = payload s l" .
    have "payload s' l = payload (s1\<lparr>payload := x\<rparr>) l"
    proof (rule for_each_frame [OF _ r])
      fix u :: "(nat \<Rightarrow> 'v) state" and d u'
      assume d: "d \<in> set (dependents g n)" and uu: "update k g calc u d = Some (Returned u')"
      from closed [OF Suc.prems(1) d] have dD: "d \<in> D" .
      from Suc.IH [OF dD uu] show "payload u' l = payload u l" .
    qed
    with xl show ?thesis by simp
  qed
qed

subsection \<open>Setting the inputs and updating the engine\<close>

text \<open>
  Setting the same inputs a second time gives the attributes that the first time gave, and
  so does storing the three aggregates of the engine.
\<close>

lemma apply_writes_lookup:
  "apply_writes ws tbl a k = (case last_write ws a k of Some v \<Rightarrow> Some v | None \<Rightarrow> tbl a k)"
  by (induction ws arbitrary: tbl) (auto simp: store_attribute_def split: option.splits)

lemma apply_writes_again:
  assumes "Y a k = apply_writes ws tbl a k"
  shows "apply_writes ws Y a k = apply_writes ws tbl a k"
  using assms by (simp add: apply_writes_lookup split: option.splits)

lemma for_each_mark_keeps:
  assumes "\<And>(s::'p state) d s'. d \<in> set ds \<Longrightarrow> f s d = Some s'
     \<Longrightarrow> attributes s' = attributes s \<and> payload s' = payload s \<and> computed s' = computed s"
  shows "for_each_mark f ds (s::'p state) = Some s'
     \<Longrightarrow> attributes s' = attributes s \<and> payload s' = payload s \<and> computed s' = computed s"
  using assms
proof (induction ds arbitrary: s)
  case Nil
  then show ?case by simp
next
  case (Cons a ds)
  from Cons.prems(1) obtain s1 where a: "f s a = Some s1" and r: "for_each_mark f ds s1 = Some s'"
    by (auto split: option.splits)
  have "attributes s1 = attributes s \<and> payload s1 = payload s \<and> computed s1 = computed s"
    by (rule Cons.prems(2) [OF _ a]) simp
  moreover have "attributes s' = attributes s1 \<and> payload s' = payload s1 \<and> computed s' = computed s1"
    by (rule Cons.IH [OF r]) (rule Cons.prems(2), simp_all)
  ultimately show ?case by simp
qed

lemma make_dirty_keeps:
  "make_dirty k g (s::'p state) n = Some s'
     \<Longrightarrow> attributes s' = attributes s \<and> payload s' = payload s \<and> computed s' = computed s"
proof (induction k arbitrary: s n s')
  case 0
  then show ?case by simp
next
  case (Suc k)
  from Suc.prems have
    r: "for_each_mark (make_dirty k g) (dependents g n) (s\<lparr>dirty := (dirty s)(n := True)\<rparr>) = Some s'"
    by simp
  have "attributes s' = attributes (s\<lparr>dirty := (dirty s)(n := True)\<rparr>)
      \<and> payload s' = payload (s\<lparr>dirty := (dirty s)(n := True)\<rparr>)
      \<and> computed s' = computed (s\<lparr>dirty := (dirty s)(n := True)\<rparr>)"
    by (rule for_each_mark_keeps [OF _ r]) (rule Suc.IH)
  then show ?case by simp
qed

lemma set_input_alias_effect:
  assumes "EngineAssembly_set_input_alias k A s alias v = Some (Returned s')"
  shows "attributes s' = apply_writes (resolved A [(alias, v)]) (attributes s)
           \<and> payload s' = payload s"
  using assms
  by (auto simp: EngineAssembly_set_input_alias_def setitem_def store_attribute_def
      split: option.splits prod.splits if_splits dest!: make_dirty_keeps)

lemma apply_writes_append:
  "apply_writes (ws @ vs) tbl = apply_writes vs (apply_writes ws tbl)"
  by (induction ws arbitrary: tbl) auto

lemma resolved_Cons:
  "resolved A ((alias, v) # rest) = resolved A [(alias, v)] @ resolved A rest"
  by (auto split: option.splits)

lemma set_inputs_effect:
  "EngineAssembly_set_inputs k A inputs s = Some (Returned s')
     \<Longrightarrow> attributes s' = apply_writes (resolved A inputs) (attributes s) \<and> payload s' = payload s"
proof (induction inputs arbitrary: s)
  case Nil
  then show ?case by simp
next
  case (Cons iv inputs)
  obtain nm v where iv: "iv = (nm, v)" by (cases iv)
  from Cons.prems iv obtain s1 where a: "EngineAssembly_set_input_alias k A s nm v = Some (Returned s1)"
    and r: "EngineAssembly_set_inputs k A inputs s1 = Some (Returned s')"
    by (auto split: option.splits outcome.splits)
  from set_input_alias_effect [OF a] Cons.IH [OF r] show ?case
    unfolding iv by (subst resolved_Cons) (simp add: apply_writes_append)
qed

lemma set_input_alias_again:
  assumes fin: "finite (deps_rel (wiring A))" and acyc: "acyclic (deps_rel (wiring A))"
    and fuel: "card (deps_rel (wiring A)) < k"
    and a: "EngineAssembly_set_input_alias k A s nm v = Some (Returned s1)"
    and dm: "\<forall>a. dom (attributes s a) \<subseteq> dom (attributes t a)"
  shows "\<exists>t1. EngineAssembly_set_input_alias k A t nm v = Some (Returned t1)
           \<and> (\<forall>a. dom (attributes s1 a) \<subseteq> dom (attributes t1 a))"
proof -
  from a obtain ident param where p: "map_of (input_alias_paths A) nm = Some (ident, param)"
    by (auto simp: EngineAssembly_set_input_alias_def split: option.splits)
  with a obtain c where c: "components A ident = Some c"
    by (auto simp: EngineAssembly_set_input_alias_def split: option.splits)
  show ?thesis
  proof (cases "c = engine_attributes A")
    case True
    with a p c have "attributes s1 = store_attribute (attributes s) c param v"
      by (auto simp: EngineAssembly_set_input_alias_def)
    with True p c dm show ?thesis
      by (auto simp: EngineAssembly_set_input_alias_def store_attribute_def)
  next
    case False
    with a p c have si: "setitem k (wiring A) s c param v = Some (Returned s1)"
      by (simp add: EngineAssembly_set_input_alias_def)
    then have k: "attributes s c param \<noteq> None"
      by (auto simp: setitem_def split: if_splits)
    with dm have kt: "attributes t c param \<noteq> None" by blast
    from si k obtain s' where "make_dirty k (wiring A) s c = Some s'"
      and s1: "s1 = s'\<lparr>attributes := (attributes s')(c := (attributes s' c)(param \<mapsto> v))\<rparr>"
      by (auto simp: setitem_def split: option.splits)
    from make_dirty_keeps [OF this(1)] s1
    have as1: "attributes s1 = (attributes s)(c := (attributes s c)(param \<mapsto> v))" by simp
    have "depth (wiring A) c < k"
      using depth_le_card [OF fin, of c] fuel by simp
    from make_dirty_marks [OF fin acyc this, of t]
    obtain t' where mt: "make_dirty k (wiring A) t c = Some t'" by blast
    from make_dirty_keeps [OF mt] have at': "attributes t' = attributes t" by simp
    define t1 where "t1 = t'\<lparr>attributes := (attributes t')(c := (attributes t' c)(param \<mapsto> v))\<rparr>"
    from kt mt have "setitem k (wiring A) t c param v = Some (Returned t1)"
      by (simp add: setitem_def t1_def)
    with False p c have "EngineAssembly_set_input_alias k A t nm v = Some (Returned t1)"
      by (simp add: EngineAssembly_set_input_alias_def)
    moreover have "\<forall>a. dom (attributes s1 a) \<subseteq> dom (attributes t1 a)"
      using dm by (auto simp: as1 t1_def at')
    ultimately show ?thesis by blast
  qed
qed

lemma set_inputs_again:
  assumes fin: "finite (deps_rel (wiring A))" and acyc: "acyclic (deps_rel (wiring A))"
    and fuel: "card (deps_rel (wiring A)) < k"
  shows "EngineAssembly_set_inputs k A inputs s = Some (Returned s1)
     \<Longrightarrow> \<forall>a. dom (attributes s a) \<subseteq> dom (attributes t a)
     \<Longrightarrow> \<exists>t1. EngineAssembly_set_inputs k A inputs t = Some (Returned t1)"
proof (induction inputs arbitrary: s t)
  case Nil
  then show ?case by simp
next
  case (Cons iv inputs)
  obtain nm v where iv: "iv = (nm, v)" by (cases iv)
  from Cons.prems(1) iv obtain s' where a: "EngineAssembly_set_input_alias k A s nm v = Some (Returned s')"
    and r: "EngineAssembly_set_inputs k A inputs s' = Some (Returned s1)"
    by (auto split: option.splits outcome.splits)
  from set_input_alias_again [OF fin acyc fuel a Cons.prems(2)]
  obtain t' where ta: "EngineAssembly_set_input_alias k A t nm v = Some (Returned t')"
    and dm': "\<forall>a. dom (attributes s' a) \<subseteq> dom (attributes t' a)" by blast
  from Cons.IH [OF r dm'] obtain t1 where "EngineAssembly_set_inputs k A inputs t' = Some (Returned t1)" by blast
  with ta iv show ?case by simp
qed

lemma get_outputs_cong:
  "attributes t = attributes s \<Longrightarrow> EngineAssembly_get_outputs A t paths = EngineAssembly_get_outputs A s paths"
  by (induction paths) (auto split: option.splits sum.splits)

lemma apply_writes_dom: "tbl a k \<noteq> None \<Longrightarrow> apply_writes ws tbl a k \<noteq> None"
  by (simp add: apply_writes_lookup split: option.splits)

lemma Engine_update_Returned:
  assumes "Engine_update k A s1 = Some (Returned s')"
  shows "\<exists>s2 s3 x c y.
      make_dirty k (wiring A) s1 (environment A) = Some s2
    \<and> update k (wiring A) (calculate_of A) s2 (environment A) = Some (Returned s3)
    \<and> thrust_of A (payload s3) = Inr x
    \<and> components A ''COMBUSTOR'' = Some c
    \<and> fuel_flow_of A
         (store_attribute (attributes s3) (engine_attributes A) ''THRUST'' x c) (payload s3) = Inr y
    \<and> x \<noteq> 0
    \<and> s' = s3\<lparr>attributes :=
           store_attribute
             (store_attribute
               (store_attribute (attributes s3) (engine_attributes A) ''THRUST'' x)
               (engine_attributes A) ''FUEL_FLOW'' y)
             (engine_attributes A) ''SFC'' (y / x)\<rparr>"
  using assms
  by (auto simp: Engine_update_def calculate_thrust_def calculate_attributes_def Let_def
      store_attribute_def split: option.splits outcome.splits sum.splits if_splits)

lemma Engine_update_again:
  assumes "make_dirty k (wiring A) t1 (environment A) = Some t2"
    and "update k (wiring A) (calculate_of A) t2 (environment A) = Some (Returned t3)"
    and "thrust_of A (payload t3) = Inr x"
    and "components A ''COMBUSTOR'' = Some c"
    and "fuel_flow_of A
         (store_attribute (attributes t3) (engine_attributes A) ''THRUST'' x c) (payload t3) = Inr y"
    and "x \<noteq> 0"
  shows "Engine_update k A t1 = Some (Returned (t3\<lparr>attributes :=
           store_attribute
             (store_attribute
               (store_attribute (attributes t3) (engine_attributes A) ''THRUST'' x)
               (engine_attributes A) ''FUEL_FLOW'' y)
             (engine_attributes A) ''SFC'' (y / x)\<rparr>))"
  using assms
  by (simp add: Engine_update_def calculate_thrust_def calculate_attributes_def Let_def
      store_attribute_def)

lemma aggregates_other: "a \<noteq> e \<Longrightarrow> aggregates tbl e x y a = tbl a"
  by (simp add: aggregates_def store_attribute_def)

lemma aggregates_dom: "tbl a k \<noteq> None \<Longrightarrow> aggregates tbl e x y a k \<noteq> None"
  by (auto simp: aggregates_def store_attribute_def)

lemma aggregates_again:
  "aggregates (apply_writes ws (aggregates (apply_writes ws tbl) e x y)) e x y
     = aggregates (apply_writes ws tbl) e x y"
proof (intro ext)
  fix a k
  show "aggregates (apply_writes ws (aggregates (apply_writes ws tbl) e x y)) e x y a k
     = aggregates (apply_writes ws tbl) e x y a k"
  proof (cases "a = e \<and> (k = ''THRUST'' \<or> k = ''FUEL_FLOW'' \<or> k = ''SFC'')")
    case True
    then show ?thesis by (auto simp: aggregates_def store_attribute_def)
  next
    case False
    then have u: "\<And>T. aggregates T e x y a k = T a k"
      by (auto simp: aggregates_def store_attribute_def)
    have "apply_writes ws (aggregates (apply_writes ws tbl) e x y) a k
            = apply_writes ws tbl a k"
      by (rule apply_writes_again) (simp add: u)
    then show ?thesis by (simp add: u)
  qed
qed

subsection \<open>The example assembly\<close>

text \<open>The example assembly meets the conditions, and its first call returns.\<close>

lemma deps_rel_heater: "deps_rel heater_wiring = {(0, 1), (1, 2)}"
  by (auto simp: deps_rel_def heater_wiring_def split: if_splits)

lemma heater_first:
  "\<exists>s'. EngineAssembly_calculate 3 heater heater_built [(''DT'', 200)]
          = Some (Inr [(''SFC'', 0.4016), (''THRUST'', 500)], s')"
  by (simp add: EngineAssembly_calculate_def EngineAssembly_set_input_alias_def setitem_def Engine_update_def
      calculate_thrust_def calculate_attributes_def store_attribute_def Combustor_calculate_def
      Combustor_fuel_flow_def heater_def heater_wiring_def heater_built_def ambient_stations_def
      eval_nat_numeral Let_def)

lemma heater_reach: "(0, m) \<in> (deps_rel heater_wiring)\<^sup>* \<Longrightarrow> m = 0 \<or> m = 1 \<or> m = 2"
proof (induction rule: rtrancl_induct)
  case base
  show ?case by simp
next
  case (step y z)
  from step(2) show ?case by (auto simp: deps_rel_heater)
qed

lemma heater_link:
  "\<forall>m p. (environment heater, m) \<in> (deps_rel (wiring heater))\<^sup>*
           \<and> p \<in> set (precedents (wiring heater) m)
      \<longrightarrow> (environment heater, p) \<in> (deps_rel (wiring heater))\<^sup>*
           \<and> m \<in> set (dependents (wiring heater) p)"
proof (intro allI impI, elim conjE)
  fix m p
  assume r: "(environment heater, m) \<in> (deps_rel (wiring heater))\<^sup>*"
    and p: "p \<in> set (precedents (wiring heater) m)"
  from r have "m = 0 \<or> m = 1 \<or> m = 2"
    by (intro heater_reach) (simp add: heater_def)
  with p have c: "(m = 1 \<and> p = 0) \<or> (m = 2 \<and> p = 1)"
    by (auto simp: heater_def heater_wiring_def)
  have r0: "(0, 0) \<in> (deps_rel heater_wiring)\<^sup>*" by simp
  have r1: "(0, 1) \<in> (deps_rel heater_wiring)\<^sup>*"
    by (rule r_into_rtrancl) (simp add: deps_rel_heater)
  from c show "(environment heater, p) \<in> (deps_rel (wiring heater))\<^sup>*
      \<and> m \<in> set (dependents (wiring heater) p)"
    using r0 r1 by (auto simp: heater_def heater_wiring_def)
qed

lemma heater_disciplined:
  "disciplined (wiring heater) {m. (environment heater, m) \<in> (deps_rel (wiring heater))\<^sup>*}
     (environment heater) (calculate_of heater) heater_reads heater_writes"
  unfolding disciplined_def
  by (auto simp: heater_def heater_reads_def heater_writes_def Combustor_calculate_def Let_def
      split: option.splits if_splits)

lemma heater_engine_apart:
  "(environment heater, engine_attributes heater) \<notin> (deps_rel (wiring heater))\<^sup>*"
proof
  assume "(environment heater, engine_attributes heater) \<in> (deps_rel (wiring heater))\<^sup>*"
  then have "(0, 3) \<in> (deps_rel heater_wiring)\<^sup>*" by (simp add: heater_def)
  from heater_reach [OF this] show False by simp
qed

subsection \<open>The second call returns what the first returned\<close>

text \<open>
  C3.  \<open>EngineAssembly.calculate\<close> is idempotent on its outputs.  Take an assembly whose
  network is finite and acyclic, in which every precedent of an object downstream of the
  environment is itself downstream and lists that object as a dependent, whose calculate
  methods are disciplined for some read sets and write sets, and whose own attribute dict
  is registered as \<open>ENGINE\<close> only and is no object of the network.  If a call of \<open>calculate\<close>
  from any state returns outputs, then a second call with the same inputs, from the state
  that the first call left behind, returns the same outputs.
\<close>

theorem calculate_idempotent:
  fixes A :: "'v assembly" and s :: "(nat \<Rightarrow> 'v) state"
  assumes fin: "finite (deps_rel (wiring A))" and acyc: "acyclic (deps_rel (wiring A))"
    and fuel: "card (deps_rel (wiring A)) < k"
    and link: "\<forall>m p. (environment A, m) \<in> (deps_rel (wiring A))\<^sup>*
                  \<and> p \<in> set (precedents (wiring A) m)
                 \<longrightarrow> (environment A, p) \<in> (deps_rel (wiring A))\<^sup>*
                  \<and> m \<in> set (dependents (wiring A) p)"
    and disc: "disciplined (wiring A) {m. (environment A, m) \<in> (deps_rel (wiring A))\<^sup>*}
                 (environment A) (calculate_of A) reads writes"
    and eng: "\<forall>ident. components A ident = Some (engine_attributes A) \<longrightarrow> ident = ''ENGINE''"
    and engD: "(environment A, engine_attributes A) \<notin> (deps_rel (wiring A))\<^sup>*"
    and first: "EngineAssembly_calculate k A s inputs = Some (Inr outputs, s')"
  shows "\<exists>s''. EngineAssembly_calculate k A s' inputs = Some (Inr outputs, s'')"
proof -
  let ?g = "wiring A" and ?r = "environment A" and ?e = "engine_attributes A"
  let ?calc = "calculate_of A"
  let ?D = "{m. (environment A, m) \<in> (deps_rel (wiring A))\<^sup>*}"
  let ?ws = "resolved A inputs"
  have rD: "?r \<in> ?D" by simp
  have eD: "?e \<notin> ?D" using engD by simp
  have closed: "\<And>m d. m \<in> ?D \<Longrightarrow> d \<in> set (dependents ?g m) \<Longrightarrow> d \<in> ?D"
  proof -
    fix m d assume "m \<in> ?D" "d \<in> set (dependents ?g m)"
    then have "(?r, m) \<in> (deps_rel ?g)\<^sup>*" "(m, d) \<in> deps_rel ?g" by (simp_all add: deps_rel_def)
    then have "(?r, d) \<in> (deps_rel ?g)\<^sup>*" by (rule rtrancl_into_rtrancl)
    then show "d \<in> ?D" by simp
  qed
  have linkD: "\<And>d p. d \<in> ?D \<Longrightarrow> p \<in> set (precedents ?g d) \<Longrightarrow> p \<in> ?D"
    using link by blast
  have dr: "depth ?g ?r < k"
    using depth_le_card [OF fin, of ?r] fuel by simp

  \<comment> \<open>the first call\<close>
  from first obtain s1 where si: "EngineAssembly_set_inputs k A inputs s = Some (Returned s1)"
    and eu: "Engine_update k A s1 = Some (Returned s')"
    and out: "EngineAssembly_get_outputs A s' (output_alias_paths A) = Inr outputs"
    by (auto simp: EngineAssembly_calculate_def split: option.splits outcome.splits)
  from Engine_update_Returned [OF eu] obtain s2 s3 x c y where U:
    "make_dirty k ?g s1 ?r = Some s2
    \<and> update k ?g ?calc s2 ?r = Some (Returned s3)
    \<and> thrust_of A (payload s3) = Inr x
    \<and> components A ''COMBUSTOR'' = Some c
    \<and> fuel_flow_of A (store_attribute (attributes s3) ?e ''THRUST'' x c) (payload s3) = Inr y
    \<and> x \<noteq> 0
    \<and> s' = s3\<lparr>attributes :=
           store_attribute
             (store_attribute
               (store_attribute (attributes s3) ?e ''THRUST'' x)
               ?e ''FUEL_FLOW'' y)
             ?e ''SFC'' (y / x)\<rparr>"
    by (elim exE) (erule that)
  from U have md: "make_dirty k ?g s1 ?r = Some s2"
    and up: "update k ?g ?calc s2 ?r = Some (Returned s3)"
    and th: "thrust_of A (payload s3) = Inr x"
    and co: "components A ''COMBUSTOR'' = Some c"
    and ff: "fuel_flow_of A (store_attribute (attributes s3) ?e ''THRUST'' x c) (payload s3) = Inr y"
    and x0: "x \<noteq> 0"
    by simp_all
  from U have s': "s' = s3\<lparr>attributes := aggregates (attributes s3) ?e x y\<rparr>"
    by (simp add: aggregates_def)
  from co eng have ce: "c \<noteq> ?e" by auto
  from set_inputs_effect [OF si] have a1: "attributes s1 = apply_writes ?ws (attributes s)"
    and p1: "payload s1 = payload s" by simp_all
  from make_dirty_keeps [OF md] have a2: "attributes s2 = attributes s1"
    and p2: "payload s2 = payload s1" by simp_all
  from make_dirty_marks [OF fin acyc dr, of s1] md
  have d2: "\<And>m. m \<in> ?D \<Longrightarrow> dirty s2 m" by auto
  from progress_attributes [OF update_progress [OF up]] have a3: "attributes s3 = attributes s2"
    by simp
  have as': "attributes s' = aggregates (apply_writes ?ws (attributes s)) ?e x y"
    by (simp add: s' a3 a2 a1)
  have ps': "payload s' = payload s3" by (simp add: s')
  have stale2: "\<forall>m. (?r, m) \<in> (deps_rel ?g)\<^sup>* \<longrightarrow> dirty s2 m"
    using d2 by simp
  have fresh3: "\<And>m. m \<in> ?D \<Longrightarrow> \<not> dirty s3 m"
    using update_from_root [OF fin acyc link stale2 up] by simp

  \<comment> \<open>the second call: the inputs\<close>
  have dm: "\<forall>a. dom (attributes s a) \<subseteq> dom (attributes s' a)"
  proof (intro allI subsetI)
    fix a key assume "key \<in> dom (attributes s a)"
    then have "attributes s a key \<noteq> None" by auto
    then have "apply_writes ?ws (attributes s) a key \<noteq> None" by (rule apply_writes_dom)
    then have "aggregates (apply_writes ?ws (attributes s)) ?e x y a key \<noteq> None"
      by (rule aggregates_dom)
    then show "key \<in> dom (attributes s' a)" by (auto simp: as')
  qed
  from set_inputs_again [OF fin acyc fuel si dm]
  obtain t1 where ti: "EngineAssembly_set_inputs k A inputs s' = Some (Returned t1)" by blast
  from set_inputs_effect [OF ti] have b1: "attributes t1 = apply_writes ?ws (attributes s')"
    and q1: "payload t1 = payload s'" by simp_all
  define t2 where "t2 = t1\<lparr>dirty := (\<lambda>m. dirty t1 m \<or> (?r, m) \<in> (deps_rel ?g)\<^sup>*)\<rparr>"
  have md2: "make_dirty k ?g t1 ?r = Some t2"
    unfolding t2_def by (rule make_dirty_marks [OF fin acyc dr])
  have b2: "attributes t2 = attributes t1" and q2: "payload t2 = payload t1"
    by (simp_all add: t2_def)
  have other: "\<And>a. a \<noteq> ?e \<Longrightarrow> attributes t2 a = attributes s2 a"
  proof -
    fix a assume ne: "a \<noteq> ?e"
    show "attributes t2 a = attributes s2 a"
    proof (intro ext)
      fix key
      have "apply_writes ?ws (attributes s') a key = apply_writes ?ws (attributes s) a key"
        by (rule apply_writes_again) (simp add: as' aggregates_other [OF ne])
      then show "attributes t2 a key = attributes s2 a key"
        by (simp add: b2 b1 a2 a1)
    qed
  qed

  \<comment> \<open>the second call: the propagation\<close>
  have al: "alike ?D writes s2 t2"
    unfolding alike_def
  proof (intro conjI ballI)
    fix m assume "m \<in> ?D"
    then show "dirty t2 m = dirty s2 m" using d2 by (simp add: t2_def)
  next
    fix a assume "a \<in> ?D"
    with eD have "a \<noteq> ?e" by auto
    then show "attributes t2 a = attributes s2 a" by (rule other)
  next
    show "agree ?D writes s2 t2"
      unfolding agree_def
    proof (intro allI impI)
      fix l
      assume "(\<forall>w \<in> ?D. l \<notin> writes w) \<or> (\<exists>w \<in> ?D. l \<in> writes w \<and> \<not> dirty s2 w)"
      with d2 have nw: "\<forall>w \<in> ?D. l \<notin> writes w" by blast
      have "payload s3 l = payload s2 l"
      proof (rule update_frame [OF disc _ nw rD up])
        fix m d assume "m \<in> ?D" "d \<in> set (dependents ?g m)"
        then show "d \<in> ?D" by (rule closed)
      qed
      then show "payload t2 l = payload s2 l" by (simp add: q2 q1 ps')
    qed
  qed
  have snd2: "sound ?g ?D ?r s2"
    by (rule soundI) (use d2 in blast)+
  have "\<exists>t3. update k ?g ?calc t2 ?r = Some (Returned t3) \<and> alike ?D writes s3 t3"
  proof (rule update_alike [OF disc _ _ al snd2 rD _ up])
    fix m d assume "m \<in> ?D" "d \<in> set (dependents ?g m)"
    then show "d \<in> ?D" by (rule closed)
  next
    fix d p assume "d \<in> ?D" "p \<in> set (precedents ?g d)"
    then show "p \<in> ?D" by (rule linkD)
  next
    show "?r = ?r \<or> (\<exists>m \<in> ?D. ?r \<in> set (dependents ?g m) \<and> \<not> dirty s2 m)" by simp
  qed
  then obtain t3 where up2: "update k ?g ?calc t2 ?r = Some (Returned t3)"
    and al3: "alike ?D writes s3 t3" by blast
  have q3: "payload t3 = payload s3"
  proof (intro ext)
    fix l
    from al3 have ag: "agree ?D writes s3 t3" by (simp add: alike_def)
    have "(\<forall>w \<in> ?D. l \<notin> writes w) \<or> (\<exists>w \<in> ?D. l \<in> writes w \<and> \<not> dirty s3 w)"
      using fresh3 by blast
    from agreeD [OF ag this] show "payload t3 l = payload s3 l" .
  qed
  from progress_attributes [OF update_progress [OF up2]] have b3: "attributes t3 = attributes t2"
    by simp

  \<comment> \<open>the second call: the aggregates and the outputs\<close>
  have th2: "thrust_of A (payload t3) = Inr x" by (simp add: q3 th)
  have "store_attribute (attributes t3) ?e ''THRUST'' x c = attributes t3 c"
    using ce by (simp add: store_attribute_def)
  moreover have "store_attribute (attributes s3) ?e ''THRUST'' x c = attributes s3 c"
    using ce by (simp add: store_attribute_def)
  moreover have "attributes t3 c = attributes s3 c"
    using other [OF ce] by (simp add: b3 a3)
  ultimately have ff2: "fuel_flow_of A (store_attribute (attributes t3) ?e ''THRUST'' x c)
      (payload t3) = Inr y"
    using ff by (simp add: q3)
  define t4 where "t4 = t3\<lparr>attributes := aggregates (attributes t3) ?e x y\<rparr>"
  have eu2: "Engine_update k A t1 = Some (Returned t4)"
    unfolding t4_def aggregates_def
    by (rule Engine_update_again [OF md2 up2 th2 co ff2 x0])
  have "attributes t4 = aggregates (apply_writes ?ws (attributes s')) ?e x y"
    by (simp add: t4_def b3 b2 b1)
  also have "\<dots> = attributes s'"
    unfolding as' by (rule aggregates_again)
  finally have "attributes t4 = attributes s'" .
  then have "EngineAssembly_get_outputs A t4 (output_alias_paths A) = EngineAssembly_get_outputs A s' (output_alias_paths A)"
    by (rule get_outputs_cong)
  with out have "EngineAssembly_get_outputs A t4 (output_alias_paths A) = Inr outputs"
    by simp
  with ti eu2 have "EngineAssembly_calculate k A s' inputs = Some (Inr outputs, t4)"
    by (simp add: EngineAssembly_calculate_def)
  then show ?thesis by blast
qed

theorem calculate_idempotent_witness:
  "\<exists>s' s''. EngineAssembly_calculate 3 heater heater_built [(''DT'', 200)]
               = Some (Inr [(''SFC'', 0.4016), (''THRUST'', 500)], s')
     \<and> EngineAssembly_calculate 3 heater s' [(''DT'', 200)]
               = Some (Inr [(''SFC'', 0.4016), (''THRUST'', 500)], s'')"
proof -
  obtain s' where first: "EngineAssembly_calculate 3 heater heater_built [(''DT'', 200)]
      = Some (Inr [(''SFC'', 0.4016), (''THRUST'', 500)], s')"
    using heater_first ..
  have fin: "finite (deps_rel (wiring heater))"
    by (simp add: heater_def deps_rel_heater)
  have "acyclic (deps_rel heater_wiring)"
    by (rule acyclic_increasing) (auto simp: deps_rel_heater)
  then have acyc: "acyclic (deps_rel (wiring heater))"
    by (simp add: heater_def)
  have fuel: "card (deps_rel (wiring heater)) < 3"
    by (simp add: heater_def deps_rel_heater)
  have eng: "\<forall>ident. components heater ident = Some (engine_attributes heater)
      \<longrightarrow> ident = ''ENGINE''"
    by (simp add: heater_def)
  from calculate_idempotent [OF fin acyc fuel heater_link heater_disciplined eng
      heater_engine_apart first]
  obtain s'' where "EngineAssembly_calculate 3 heater s' [(''DT'', 200)]
      = Some (Inr [(''SFC'', 0.4016), (''THRUST'', 500)], s'')" ..
  with first show ?thesis by (intro exI conjI)
qed

end
